theory Spec2Isabelle
  imports Main "HOL-Library.Word" "HOL-Library.Monad_Syntax"
begin

unbundle bit_operations_syntax

section \<open>Condition-variable timed wait over futexes (src/thread/pthread\_cond\_timedwait.c)\<close>

text \<open>
  The file is embedded one thread at a time.  The memory shared between threads is an
  explicit store; a thread runs its C code on the store, and whenever it is suspended in a
  blocking call (\<open>__wait\<close>, \<open>__timedwait\<close>, \<open>pthread_mutex_lock\<close>) the other threads act on
  the store through an arbitrary function taken from the environment.  The results of the
  collaborators that are not part of this file (the futex wait helper, the mutex, the
  cancellation point, the raw futex system call) are read from the environment as well.
  A call that never returns has the value \<open>None\<close>.
\<close>

subsection \<open>Data model\<close>

type_synonym addr = nat  \<comment> \<open>an object address; \<open>0\<close> is the null pointer\<close>

text \<open>The \<open>int\<close> objects whose address is taken (futex words, atomics, lock words).\<close>

datatype loc =
    C_lock addr | C_seq addr | C_waiters addr
  | W_state addr | W_barrier addr
  | M_lock addr | M_waiters addr
  | Local addr  \<comment> \<open>an \<open>int\<close> in some thread's stack frame (the signaler's \<open>ref\<close>)\<close>
  | Dummy       \<comment> \<open>the compound literal \<open>(int){0}\<close>\<close>

record waiter =
  prev :: addr
  "next" :: addr
  state :: int
  barrier :: int
  requeued :: int
  mutex_ret :: int
  notify :: "loc option"
  mutex :: addr
  cond :: addr
  shared :: int

record pthread_cond =
  c_lock :: int
  c_head :: addr
  c_tail :: addr
  c_seq :: int
  c_waiters :: int
  c_clock :: int
  c_shared :: int

record pthread_mutex =
  m_type :: int
  m_lock :: int
  m_waiters :: int

record timespec =
  tv_sec :: "64 word"
  tv_nsec :: "64 word"  \<comment> \<open>a C \<open>long\<close>\<close>

definition WAITING :: int where "WAITING = 0"
definition SIGNALED :: int where "SIGNALED = 1"
definition LEAVING :: int where "LEAVING = 2"

text \<open>Constants of the C library headers (generic Linux values).\<close>

definition EPERM :: int where "EPERM = 1"
definition EINTR :: int where "EINTR = 4"
definition EINVAL :: int where "EINVAL = 22"
definition ETIMEDOUT :: int where "ETIMEDOUT = 110"
definition EOWNERDEAD :: int where "EOWNERDEAD = 130"
definition ENOTRECOVERABLE :: int where "ENOTRECOVERABLE = 131"
definition INT_MAX :: int where "INT_MAX = 2147483647"
definition FUTEX_WAKE :: int where "FUTEX_WAKE = 1"
definition FUTEX_REQUEUE :: int where "FUTEX_REQUEUE = 3"

subsection \<open>Observable events\<close>

datatype cfield = F_lock | F_head | F_tail | F_seq | F_waiters | F_clock | F_shared

datatype event =
    CvLoad addr cfield     \<comment> \<open>plain read of a field of the condition variable\<close>
  | CvStore addr cfield    \<comment> \<open>plain write of a field of the condition variable\<close>
  | CvAtomic addr cfield   \<comment> \<open>atomic read-modify-write of a field of the condition variable\<close>
  | FutexWake loc int int  \<comment> \<open>\<open>__wake(addr, cnt, priv)\<close>\<close>
  | FutexWait loc int int  \<comment> \<open>\<open>__wait(addr, 0, val, priv)\<close>\<close>
  | TimedWait loc int int "timespec option" int
      \<comment> \<open>\<open>__timedwait(addr, val, clock, ts, unwait, &node, priv)\<close>\<close>
  | MutexLock addr int     \<comment> \<open>\<open>pthread_mutex_lock(m)\<close> and its result\<close>
  | MutexUnlock addr
  | TestCancel
  | SysFutex loc int int int loc
      \<comment> \<open>\<open>__syscall(SYS_futex, addr, op, val, val2, addr2)\<close>\<close>

subsection \<open>The store and the environment\<close>

record st =
  conds :: "addr \<Rightarrow> pthread_cond"
  mutexes :: "addr \<Rightarrow> pthread_mutex"
  waiters :: "addr \<Rightarrow> waiter"
  locals :: "addr \<Rightarrow> int"
  scratch :: int
  trace :: "event list"  \<comment> \<open>what this thread did, oldest first\<close>
  tick :: nat            \<comment> \<open>number of questions asked to the environment so far\<close>

datatype tw_result = TW_Return int | TW_Cancel

record env =
  interfere :: "nat \<Rightarrow> st \<Rightarrow> st"
  timedwait_result :: "nat \<Rightarrow> tw_result"
  mutex_lock_result :: "nat \<Rightarrow> int"
  cancel_pending :: "nat \<Rightarrow> bool"
  futex_result :: "nat \<Rightarrow> int"

definition log :: "event \<Rightarrow> st \<Rightarrow> st" where
  "log e s = s\<lparr>trace := trace s @ [e]\<rparr>"

definition tock :: "st \<Rightarrow> st" where
  "tock s = s\<lparr>tick := Suc (tick s)\<rparr>"

text \<open>The thread is suspended: the other threads rewrite the shared memory.  They cannot
  touch this thread's trace.\<close>

definition suspend :: "env \<Rightarrow> st \<Rightarrow> st" where
  "suspend E s =
     (let h = interfere E (tick s) s
      in s\<lparr>conds := conds h, mutexes := mutexes h, waiters := waiters h,
           locals := locals h, scratch := scratch h, tick := Suc (tick s)\<rparr>)"

definition nd :: "st \<Rightarrow> addr \<Rightarrow> waiter" where
  "nd s a = waiters s a"

definition upd_node :: "addr \<Rightarrow> (waiter \<Rightarrow> waiter) \<Rightarrow> st \<Rightarrow> st" where
  "upd_node a f s = s\<lparr>waiters := (waiters s)(a := f (waiters s a))\<rparr>"

definition upd_cond :: "addr \<Rightarrow> (pthread_cond \<Rightarrow> pthread_cond) \<Rightarrow> st \<Rightarrow> st" where
  "upd_cond c f s = s\<lparr>conds := (conds s)(c := f (conds s c))\<rparr>"

definition upd_mutex :: "addr \<Rightarrow> (pthread_mutex \<Rightarrow> pthread_mutex) \<Rightarrow> st \<Rightarrow> st" where
  "upd_mutex m f s = s\<lparr>mutexes := (mutexes s)(m := f (mutexes s m))\<rparr>"

fun rd :: "st \<Rightarrow> loc \<Rightarrow> int" where
  "rd s (C_lock c) = c_lock (conds s c)"
| "rd s (C_seq c) = c_seq (conds s c)"
| "rd s (C_waiters c) = c_waiters (conds s c)"
| "rd s (W_state a) = state (waiters s a)"
| "rd s (W_barrier a) = barrier (waiters s a)"
| "rd s (M_lock m) = m_lock (mutexes s m)"
| "rd s (M_waiters m) = m_waiters (mutexes s m)"
| "rd s (Local a) = locals s a"
| "rd s Dummy = scratch s"

fun wr :: "loc \<Rightarrow> int \<Rightarrow> st \<Rightarrow> st" where
  "wr (C_lock c) v s = upd_cond c (\<lambda>x. x\<lparr>c_lock := v\<rparr>) s"
| "wr (C_seq c) v s = upd_cond c (\<lambda>x. x\<lparr>c_seq := v\<rparr>) s"
| "wr (C_waiters c) v s = upd_cond c (\<lambda>x. x\<lparr>c_waiters := v\<rparr>) s"
| "wr (W_state a) v s = upd_node a (\<lambda>x. x\<lparr>state := v\<rparr>) s"
| "wr (W_barrier a) v s = upd_node a (\<lambda>x. x\<lparr>barrier := v\<rparr>) s"
| "wr (M_lock m) v s = upd_mutex m (\<lambda>x. x\<lparr>m_lock := v\<rparr>) s"
| "wr (M_waiters m) v s = upd_mutex m (\<lambda>x. x\<lparr>m_waiters := v\<rparr>) s"
| "wr (Local a) v s = s\<lparr>locals := (locals s)(a := v)\<rparr>"
| "wr Dummy v s = s\<lparr>scratch := v\<rparr>"

fun cv_of :: "loc \<Rightarrow> (addr \<times> cfield) option" where
  "cv_of (C_lock c) = Some (c, F_lock)"
| "cv_of (C_seq c) = Some (c, F_seq)"
| "cv_of (C_waiters c) = Some (c, F_waiters)"
| "cv_of _ = None"

text \<open>A plain read through an \<open>int\<close> pointer (\<open>*fut\<close>).\<close>

definition load :: "loc \<Rightarrow> st \<Rightarrow> int \<times> st" where
  "load l s = (rd s l, case cv_of l of None \<Rightarrow> s | Some (c, f) \<Rightarrow> log (CvLoad c f) s)"

definition note_atomic :: "loc \<Rightarrow> st \<Rightarrow> st" where
  "note_atomic l s = (case cv_of l of None \<Rightarrow> s | Some (c, f) \<Rightarrow> log (CvAtomic c f) s)"

subsection \<open>Atomic primitives and collaborators\<close>

text \<open>Modelled from the spec: the atomic operations on 32-bit words (compare-and-swap,
  swap, fetch-and-add, increment, decrement) are provided by the platform and are not part
  of this file.  Each returns the old value where the C function does; addition wraps
  around in 32 bits.\<close>

definition wrap32 :: "int \<Rightarrow> int" where
  "wrap32 x = (x + 2147483648) mod 4294967296 - 2147483648"

definition a_cas :: "loc \<Rightarrow> int \<Rightarrow> int \<Rightarrow> st \<Rightarrow> int \<times> st" where
  "a_cas l t v s =
     (let old = rd s l in (old, note_atomic l (if old = t then wr l v s else s)))"

definition a_swap :: "loc \<Rightarrow> int \<Rightarrow> st \<Rightarrow> int \<times> st" where
  "a_swap l v s = (rd s l, note_atomic l (wr l v s))"

definition a_fetch_add :: "loc \<Rightarrow> int \<Rightarrow> st \<Rightarrow> int \<times> st" where
  "a_fetch_add l v s = (rd s l, note_atomic l (wr l (wrap32 (rd s l + v)) s))"

definition a_inc :: "loc \<Rightarrow> st \<Rightarrow> st" where
  "a_inc l s = snd (a_fetch_add l 1 s)"

definition a_dec :: "loc \<Rightarrow> st \<Rightarrow> st" where
  "a_dec l s = snd (a_fetch_add l (- 1) s)"

text \<open>Modelled from the spec: \<open>futex_wake(addr, count, private)\<close> has no return value and
  does not block; \<open>__wait\<close> blocks on a futex word, so the other threads run.\<close>

definition wake :: "loc \<Rightarrow> int \<Rightarrow> int \<Rightarrow> st \<Rightarrow> st" where
  "wake l cnt priv s = log (FutexWake l cnt priv) s"

definition wait :: "env \<Rightarrow> loc \<Rightarrow> int \<Rightarrow> int \<Rightarrow> st \<Rightarrow> st" where
  "wait E l val priv s = suspend E (log (FutexWait l val priv) s)"

text \<open>Modelled from the spec: the mutex is a collaborator.  Locking blocks, and its return
  code comes from the environment; unlocking does not block.\<close>

definition pthread_mutex_lock :: "env \<Rightarrow> addr \<Rightarrow> st \<Rightarrow> int \<times> st" where
  "pthread_mutex_lock E m s =
     (let r = mutex_lock_result E (tick s) in (r, log (MutexLock m r) (suspend E s)))"

definition pthread_mutex_unlock :: "addr \<Rightarrow> st \<Rightarrow> st" where
  "pthread_mutex_unlock m s = log (MutexUnlock m) s"

text \<open>Modelled from the spec: the cancellation test point.  When a cancellation request is
  pending the thread is terminated there.\<close>

definition pthread_testcancel :: "env \<Rightarrow> st \<Rightarrow> bool \<times> st" where
  "pthread_testcancel E s = (cancel_pending E (tick s), tock (log TestCancel s))"

text \<open>The raw futex system call; its return value comes from the environment.\<close>

definition syscall_futex :: "env \<Rightarrow> loc \<Rightarrow> int \<Rightarrow> int \<Rightarrow> int \<Rightarrow> loc \<Rightarrow> st \<Rightarrow> int \<times> st" where
  "syscall_futex E l op val val2 l2 s =
     (futex_result E (tick s), tock (log (SysFutex l op val val2 l2) s))"

subsection \<open>Self-synchronized-destruction-safe lock functions\<close>

text \<open>
  \<^verbatim>\<open>
  static inline void lock(volatile int *l)
  {
      if (a_cas(l, 0, 1)) {
          a_cas(l, 1, 2);
          do __wait(l, 0, 2, 1);
          while (a_cas(l, 0, 2));
      }
  }
  \<close>
\<close>

partial_function (option) lock_loop :: "env \<Rightarrow> loc \<Rightarrow> st \<Rightarrow> st option" where
  "lock_loop E l s =
     (let s1 = wait E l 2 1 s;
          r = a_cas l 0 2 s1
      in if fst r \<noteq> 0 then lock_loop E l (snd r) else Some (snd r))"

definition lock :: "env \<Rightarrow> loc \<Rightarrow> st \<Rightarrow> st option" where
  "lock E l s =
     (let r = a_cas l 0 1 s
      in if fst r \<noteq> 0 then lock_loop E l (snd (a_cas l 1 2 (snd r))) else Some (snd r))"

definition unlock :: "loc \<Rightarrow> st \<Rightarrow> st" where
  "unlock l s =
     (let r = a_swap l 0 s in if fst r = 2 then wake l 1 1 (snd r) else snd r)"

subsection \<open>\<open>unwait\<close>: leaving the wait\<close>

text \<open>
  Path A, under the lock of the condition variable (lines 83 to 86):
  \<^verbatim>\<open>
  if (c->_c_head == node) c->_c_head = node->next;
  else if (node->prev) node->prev->next = node->next;
  if (c->_c_tail == node) c->_c_tail = node->prev;
  else if (node->next) node->next->prev = node->prev;
  \<close>
\<close>

definition unlink_from_cv :: "addr \<Rightarrow> addr \<Rightarrow> st \<Rightarrow> st" where
  "unlink_from_cv c node s =
     (let s1 = log (CvLoad c F_head) s;
          s2 = (if c_head (conds s1 c) = node
                then log (CvStore c F_head) (upd_cond c (\<lambda>x. x\<lparr>c_head := next (nd s1 node)\<rparr>) s1)
                else if prev (nd s1 node) \<noteq> 0
                then upd_node (prev (nd s1 node)) (\<lambda>x. x\<lparr>next := next (nd s1 node)\<rparr>) s1
                else s1);
          s3 = log (CvLoad c F_tail) s2
      in if c_tail (conds s3 c) = node
         then log (CvStore c F_tail) (upd_cond c (\<lambda>x. x\<lparr>c_tail := prev (nd s3 node)\<rparr>) s3)
         else if next (nd s3 node) \<noteq> 0
         then upd_node (next (nd s3 node)) (\<lambda>x. x\<lparr>prev := prev (nd s3 node)\<rparr>) s3
         else s3)"

text \<open>Lines 90 to 93: tell the signaler that saw this node leaving.\<close>

definition notify_signaler :: "addr \<Rightarrow> st \<Rightarrow> st" where
  "notify_signaler node s =
     (case notify (nd s node) of
        None \<Rightarrow> s
      | Some r \<Rightarrow>
          (let x = a_fetch_add r (- 1) s
           in if fst x = 1 then wake r 1 1 (snd x) else snd x))"

definition unwait_leave :: "env \<Rightarrow> addr \<Rightarrow> st \<Rightarrow> st option" where
  "unwait_leave E node s =
     (let c = cond (nd s node)
      in do {
        s1 \<leftarrow> lock E (C_lock c) s;
        Some (notify_signaler node (unlock (C_lock c) (unlink_from_cv c node s1)))
      })"

text \<open>\<open>for (;;) lock(&(int){0});\<close>: each round takes a fresh lock word holding 0.\<close>

partial_function (option) deadlock :: "env \<Rightarrow> st \<Rightarrow> st option" where
  "deadlock E s = Option.bind (lock E Dummy (wr Dummy 0 s)) (deadlock E)"

text \<open>\<open>for (p=node; p->next; p=p->next);\<close>\<close>

partial_function (option) find_tail :: "st \<Rightarrow> addr \<Rightarrow> addr option" where
  "find_tail s p = (if next (nd s p) \<noteq> 0 then find_tail s (next (nd s p)) else Some p)"

text \<open>\<open>for (; p && p->requeued; p=p->prev);\<close>\<close>

partial_function (option) skip_requeued :: "st \<Rightarrow> addr \<Rightarrow> addr option" where
  "skip_requeued s p =
     (if p \<noteq> 0 \<and> requeued (nd s p) \<noteq> 0 then skip_requeued s (prev (nd s p)) else Some p)"

text \<open>Lines 117 to 120: the thread to requeue to the mutex (\<open>0\<close> when there is none).\<close>

definition find_successor :: "st \<Rightarrow> addr \<Rightarrow> addr option" where
  "find_successor s node =
     do {
       p0 \<leftarrow> find_tail s node;
       p1 \<leftarrow> skip_requeued s (if p0 = node then prev (nd s node) else p0);
       Some (if p1 = node then prev (nd s node) else p1)
     }"

text \<open>
  Lines 122 to 131:
  \<^verbatim>\<open>
  p->requeued = 1;
  a_inc(&node->mutex->_m_waiters);
  int wake = node->mutex->_m_type & 128;
  __syscall(SYS_futex, &p->state, FUTEX_REQUEUE|128,
      wake, 1, &node->mutex->_m_lock) != -EINVAL
  || __syscall(SYS_futex, &p->state, FUTEX_REQUEUE,
      0, 1, &node->mutex->_m_lock);
  \<close>
\<close>

definition requeue_successor :: "env \<Rightarrow> addr \<Rightarrow> addr \<Rightarrow> st \<Rightarrow> st" where
  "requeue_successor E node p s =
     (let s1 = upd_node p (\<lambda>x. x\<lparr>requeued := 1\<rparr>) s;
          m = mutex (nd s1 node);
          s2 = a_inc (M_waiters m) s1;
          wk = m_type (mutexes s2 m) AND 128;
          r = syscall_futex E (W_state p) (FUTEX_REQUEUE OR 128) wk 1 (M_lock m) s2
      in if fst r \<noteq> - EINVAL then snd r
         else snd (syscall_futex E (W_state p) FUTEX_REQUEUE 0 1 (M_lock m) (snd r)))"

text \<open>Lines 135 and 136: remove this thread from the detached list.\<close>

definition unlink_self :: "addr \<Rightarrow> st \<Rightarrow> st" where
  "unlink_self node s =
     (let s1 = (if next (nd s node) \<noteq> 0
                then upd_node (next (nd s node)) (\<lambda>x. x\<lparr>prev := prev (nd s node)\<rparr>) s else s)
      in if prev (nd s1 node) \<noteq> 0
         then upd_node (prev (nd s1 node)) (\<lambda>x. x\<lparr>next := next (nd s1 node)\<rparr>) s1 else s1)"

text \<open>Path B from line 111 on, once the barrier of the node has been taken.\<close>

definition unwait_requeue :: "env \<Rightarrow> addr \<Rightarrow> st \<Rightarrow> st option" where
  "unwait_requeue E node s =
     (let s1 = (if requeued (nd s node) \<noteq> 0 then a_dec (M_waiters (mutex (nd s node))) s else s)
      in do {
        p \<leftarrow> find_successor s1 node;
        Some (unlink_self node (if p \<noteq> 0 then requeue_successor E node p s1 else s1))
      })"

definition set_mutex_ret :: "addr \<Rightarrow> int \<Rightarrow> st \<Rightarrow> st" where
  "set_mutex_ret node r s = upd_node node (\<lambda>x. x\<lparr>mutex_ret := r\<rparr>) s"

definition unwait :: "env \<Rightarrow> addr \<Rightarrow> st \<Rightarrow> st option" where
  "unwait E node s =
     (if shared (nd s node) \<noteq> 0 then
        (let c = cond (nd s node);
             m = mutex (nd s node);
             x = a_fetch_add (C_waiters c) (- 1) s;
             s2 = (if fst x = - 2147483647 then wake (C_waiters c) 1 0 (snd x) else snd x);
             y = pthread_mutex_lock E m s2
         in Some (set_mutex_ret node (fst y) (snd y)))
      else
        (let x = a_cas (W_state node) WAITING LEAVING s;
             oldstate = fst x
         in do {
           s2 \<leftarrow> (if oldstate = WAITING then unwait_leave E node (snd x) else Some (snd x));
           let y = pthread_mutex_lock E (mutex (nd s2 node)) s2;
           let s4 = set_mutex_ret node (fst y) (snd y);
           if oldstate = WAITING then Some s4
           else if mutex_ret (nd s4 node) \<noteq> 0 \<and> mutex_ret (nd s4 node) \<noteq> EOWNERDEAD
           then deadlock E s4
           else do {
             s5 \<leftarrow> lock E (W_barrier node) s4;
             unwait_requeue E node s5
           }
         }))"

subsection \<open>\<open>pthread_cond_timedwait\<close>\<close>

text \<open>Modelled from the spec: \<open>futex_wait(addr, expected, clock, deadline, cleanup, arg,
  private)\<close> is a blocking primitive that returns a code, or, if the thread is cancelled
  during the wait, invokes \<open>cleanup(arg)\<close>; the thread then ends.  Here the cleanup is
  \<open>unwait\<close> and its argument the node.\<close>

definition timedwait ::
  "env \<Rightarrow> loc \<Rightarrow> int \<Rightarrow> int \<Rightarrow> timespec option \<Rightarrow> addr \<Rightarrow> int \<Rightarrow> st \<Rightarrow> (tw_result \<times> st) option"
where
  "timedwait E fut val clock ts node priv s =
     (let s1 = suspend E (log (TimedWait fut val clock ts priv) s)
      in case timedwait_result E (tick s) of
           TW_Return e \<Rightarrow> Some (TW_Return e, s1)
         | TW_Cancel \<Rightarrow> map_option (Pair TW_Cancel) (unwait E node s1))"

text \<open>
  \<^verbatim>\<open>
  do e = __timedwait(fut, seq, clock, ts, unwait, &node, !node.shared);
  while (*fut==seq && (!e || e==EINTR));
  \<close>
\<close>

partial_function (option) wait_loop ::
  "env \<Rightarrow> loc \<Rightarrow> int \<Rightarrow> int \<Rightarrow> timespec option \<Rightarrow> addr \<Rightarrow> st \<Rightarrow> (tw_result \<times> st) option"
where
  "wait_loop E fut seq clock ts node s =
     (case timedwait E fut seq clock ts node (if shared (nd s node) = 0 then 1 else 0) s of
        None \<Rightarrow> None
      | Some (TW_Cancel, s1) \<Rightarrow> Some (TW_Cancel, s1)
      | Some (TW_Return e, s1) \<Rightarrow>
          (let v = load fut s1
           in if fst v = seq \<and> (e = 0 \<or> e = EINTR)
              then wait_loop E fut seq clock ts node (snd v)
              else Some (TW_Return e, snd v)))"

text \<open>\<open>struct waiter node = { .cond = c, .mutex = m };\<close>\<close>

definition new_node :: "addr \<Rightarrow> addr \<Rightarrow> waiter" where
  "new_node c m =
     \<lparr>prev = 0, next = 0, state = 0, barrier = 0, requeued = 0, mutex_ret = 0,
      notify = None, mutex = m, cond = c, shared = 0\<rparr>"

text \<open>Lines 153 to 156, the process-shared registration.\<close>

definition register_shared :: "addr \<Rightarrow> addr \<Rightarrow> st \<Rightarrow> loc \<times> int \<times> st" where
  "register_shared c node s =
     (let s1 = upd_node node (\<lambda>x. x\<lparr>shared := 1\<rparr>) s;
          v = load (C_seq c) s1
      in (C_seq c, fst v, a_inc (C_waiters c) (snd v)))"

text \<open>Lines 158 to 168, the private registration: insert the node at the head.\<close>

definition register_private :: "env \<Rightarrow> addr \<Rightarrow> addr \<Rightarrow> st \<Rightarrow> (loc \<times> int \<times> st) option" where
  "register_private E c node s =
     do {
       s1 \<leftarrow> lock E (C_lock c) s;
       let s2 = upd_node node (\<lambda>x. x\<lparr>barrier := 1\<rparr>) s1;
       let s3 = upd_node node (\<lambda>x. x\<lparr>state := WAITING\<rparr>) s2;
       let s4 = log (CvLoad c F_head) s3;
       let s5 = upd_node node (\<lambda>x. x\<lparr>next := c_head (conds s4 c)\<rparr>) s4;
       let s6 = log (CvStore c F_head) (upd_cond c (\<lambda>x. x\<lparr>c_head := node\<rparr>) s5);
       let s7 = log (CvLoad c F_tail) s6;
       let s8 = (if c_tail (conds s7 c) = 0
                 then log (CvStore c F_tail) (upd_cond c (\<lambda>x. x\<lparr>c_tail := node\<rparr>) s7)
                 else upd_node (next (nd s7 node)) (\<lambda>x. x\<lparr>prev := node\<rparr>) s7);
       Some (W_state node, WAITING, unlock (C_lock c) s8)
     }"

datatype outcome =
    Returned int  \<comment> \<open>the call returned this code\<close>
  | Cancelled     \<comment> \<open>the thread was cancelled inside the call and does not return\<close>

text \<open>
  Lines 175 to 179, after the loop (a cancelled thread has run \<open>unwait\<close> as its cleanup
  handler and does not come back):
  \<^verbatim>\<open>
  if (e == EINTR) e = 0;
  unwait(&node);
  return node.mutex_ret ? node.mutex_ret : e;
  \<close>
\<close>

definition wait_finish :: "env \<Rightarrow> addr \<Rightarrow> tw_result \<times> st \<Rightarrow> (outcome \<times> st) option" where
  "wait_finish E node r =
     (case fst r of
        TW_Cancel \<Rightarrow> Some (Cancelled, snd r)
      | TW_Return e \<Rightarrow>
          do {
            let e' = (if e = EINTR then 0 else e);
            s7 \<leftarrow> unwait E node (snd r);
            Some (Returned (if mutex_ret (nd s7 node) \<noteq> 0 then mutex_ret (nd s7 node) else e'),
                  s7)
          })"

text \<open>The arguments are the thread id of the caller, \<open>c\<close>, \<open>m\<close>, \<open>ts\<close> (\<open>None\<close> for a null
  pointer) and the address of the stack slot that holds \<open>node\<close>.\<close>

definition pthread_cond_timedwait ::
  "env \<Rightarrow> int \<Rightarrow> addr \<Rightarrow> addr \<Rightarrow> timespec option \<Rightarrow> addr \<Rightarrow> st \<Rightarrow> (outcome \<times> st) option"
where
  "pthread_cond_timedwait E self c m ts node s =
     (let s0 = upd_node node (\<lambda>_. new_node c m) s;
          s1 = log (CvLoad c F_clock) s0;
          clock = c_clock (conds s1 c)
      in if m_type (mutexes s1 m) AND 15 \<noteq> 0 \<and> m_lock (mutexes s1 m) AND INT_MAX \<noteq> self
         then Some (Returned EPERM, s1)
         else if (case ts of None \<Rightarrow> False | Some t \<Rightarrow> tv_nsec t \<ge> 1000000000)
         then Some (Returned EINVAL, s1)
         else
           (let tc = pthread_testcancel E s1
            in if fst tc then Some (Cancelled, snd tc)
               else do {
                 let s3 = log (CvLoad c F_shared) (snd tc);
                 reg \<leftarrow> (if c_shared (conds s3 c) \<noteq> 0 then Some (register_shared c node s3)
                         else register_private E c node s3);
                 let fut = fst reg;
                 let seq = fst (snd reg);
                 let s5 = pthread_mutex_unlock m (snd (snd reg));
                 r \<leftarrow> wait_loop E fut seq clock ts node s5;
                 wait_finish E node r
               }))"

subsection \<open>\<open>__private_cond_signal\<close>\<close>

text \<open>
  Lines 188 to 201; \<open>r\<close> is the address of the local \<open>ref\<close>.
  \<^verbatim>\<open>
  for (p=c->_c_tail; n && p; p=p->prev) {
      if (a_cas(&p->state, WAITING, SIGNALED) != WAITING) {
          ref++;
          p->notify = &ref;
      } else {
          n--;
          if (!q) q=p;
      }
  }
  \<close>
\<close>

partial_function (option) signal_walk ::
  "addr \<Rightarrow> addr \<Rightarrow> int \<Rightarrow> addr \<Rightarrow> st \<Rightarrow> (addr \<times> addr \<times> st) option"
where
  "signal_walk r p n q s =
     (if n \<noteq> 0 \<and> p \<noteq> 0 then
        (let x = a_cas (W_state p) WAITING SIGNALED s
         in if fst x \<noteq> WAITING
            then (let s1 = wr (Local r) (rd (snd x) (Local r) + 1) (snd x);
                      s2 = upd_node p (\<lambda>w. w\<lparr>notify := Some (Local r)\<rparr>) s1
                  in signal_walk r (prev (nd s2 p)) n q s2)
            else signal_walk r (prev (nd (snd x) p)) (n - 1) (if q = 0 then p else q) (snd x))
      else Some (p, q, s))"

text \<open>Lines 203 to 209: split the list, leaving any remainder on the cv.\<close>

definition signal_split :: "addr \<Rightarrow> addr \<Rightarrow> st \<Rightarrow> st" where
  "signal_split c p s =
     (let s1 = (if p \<noteq> 0
                then (let s' = (if next (nd s p) \<noteq> 0
                                then upd_node (next (nd s p)) (\<lambda>w. w\<lparr>prev := 0\<rparr>) s else s)
                      in upd_node p (\<lambda>w. w\<lparr>next := 0\<rparr>) s')
                else log (CvStore c F_head) (upd_cond c (\<lambda>x. x\<lparr>c_head := 0\<rparr>) s))
      in log (CvStore c F_tail) (upd_cond c (\<lambda>x. x\<lparr>c_tail := p\<rparr>) s1))"

text \<open>Line 215: \<open>while ((cur = ref)) __wait(&ref, 0, cur, 1);\<close>\<close>

partial_function (option) signal_drain :: "env \<Rightarrow> addr \<Rightarrow> st \<Rightarrow> st option" where
  "signal_drain E r s =
     (let cur = rd s (Local r)
      in if cur \<noteq> 0 then signal_drain E r (wait E (Local r) cur 1 s) else Some s)"

text \<open>
  Lines 219 to 223:
  \<^verbatim>\<open>
  for (p=q; p; p=q) {
      q = p->prev;
      if (!p->next) __wake(&p->state, 1, 1);
      unlock(&p->barrier);
  }
  \<close>
\<close>

partial_function (option) signal_wake :: "addr \<Rightarrow> st \<Rightarrow> st option" where
  "signal_wake p s =
     (if p \<noteq> 0 then
        (let q = prev (nd s p);
             s1 = (if next (nd s p) = 0 then wake (W_state p) 1 1 s else s)
         in signal_wake q (unlock (W_barrier p) s1))
      else Some s)"

text \<open>
  The same loop for a signaler that can be preempted.  The loop has no blocking call, but
  the other threads run while it does: here they run at the end of each round, when the
  barrier of \<open>p\<close> has just been released and the thread of \<open>p\<close> is free to go on in
  \<open>unwait\<close>.
\<close>

partial_function (option) signal_wake_preempt :: "env \<Rightarrow> addr \<Rightarrow> st \<Rightarrow> st option" where
  "signal_wake_preempt E p s =
     (if p \<noteq> 0 then
        (let q = prev (nd s p);
             s1 = (if next (nd s p) = 0 then wake (W_state p) 1 1 s else s)
         in signal_wake_preempt E q (suspend E (unlock (W_barrier p) s1)))
      else Some s)"

definition private_cond_signal :: "env \<Rightarrow> addr \<Rightarrow> int \<Rightarrow> addr \<Rightarrow> st \<Rightarrow> (int \<times> st) option" where
  "private_cond_signal E c n r s =
     do {
       let s0 = wr (Local r) 0 s;
       s1 \<leftarrow> lock E (C_lock c) s0;
       let s2 = log (CvLoad c F_tail) s1;
       (p, q, s3) \<leftarrow> signal_walk r (c_tail (conds s2 c)) n 0 s2;
       let s5 = unlock (C_lock c) (signal_split c p s3);
       s6 \<leftarrow> signal_drain E r s5;
       s7 \<leftarrow> signal_wake q s6;
       Some (0, s7)
     }"

subsection \<open>Concrete stores and environments\<close>

text \<open>A quiet environment: nobody interferes, every wait times out, the mutex is always
  acquired, no cancellation is pending and the futex system call succeeds.\<close>

definition env0 :: env where
  "env0 = \<lparr>interfere = (\<lambda>k s. s), timedwait_result = (\<lambda>k. TW_Return ETIMEDOUT),
           mutex_lock_result = (\<lambda>k. 0), cancel_pending = (\<lambda>k. False),
           futex_result = (\<lambda>k. 0)\<rparr>"

definition cond0 :: pthread_cond where
  "cond0 = \<lparr>c_lock = 0, c_head = 0, c_tail = 0, c_seq = 0, c_waiters = 0, c_clock = 0,
            c_shared = 0\<rparr>"

definition mutex0 :: pthread_mutex where
  "mutex0 = \<lparr>m_type = 0, m_lock = 0, m_waiters = 0\<rparr>"

definition st0 :: st where
  "st0 = \<lparr>conds = (\<lambda>_. cond0), mutexes = (\<lambda>_. mutex0), waiters = (\<lambda>_. new_node 0 0),
          locals = (\<lambda>_. 0), scratch = 0, trace = [], tick = 0\<rparr>"

text \<open>The same store with mutex 1 of an error-checking type and owned by nobody.\<close>

definition st_errorcheck :: st where
  "st_errorcheck = upd_mutex 1 (\<lambda>x. x\<lparr>m_type := 2\<rparr>) st0"

definition ts_big :: timespec where
  "ts_big = \<lparr>tv_sec = 0, tv_nsec = 1000000000\<rparr>"

definition ts_neg :: timespec where
  "ts_neg = \<lparr>tv_sec = 0, tv_nsec = - 1\<rparr>"

subsection \<open>Notions used in the statements\<close>

text \<open>The trace of \<open>s'\<close> extends the trace of \<open>s\<close>.\<close>

definition grows :: "st \<Rightarrow> st \<Rightarrow> bool" where
  "grows s s' = (\<exists>evs. trace s' = trace s @ evs)"
text \<open>In a trace, the first occurrence of \<open>a\<close> is followed, somewhere, by \<open>b\<close>.\<close>

definition precedes :: "event \<Rightarrow> event \<Rightarrow> event list \<Rightarrow> bool" where
  "precedes a b tr = (b \<in> set (dropWhile (\<lambda>e. e \<noteq> a) tr))"

text \<open>A process-shared condition variable whose sequence number is 9.\<close>

definition st_shared :: st where
  "st_shared = upd_cond 1 (\<lambda>x. x\<lparr>c_shared := 1, c_seq := 9\<rparr>) st0"

text \<open>An environment in which the mutex cannot be reacquired.\<close>

definition env_lock_fails :: env where
  "env_lock_fails = env0\<lparr>mutex_lock_result := (\<lambda>k. ENOTRECOVERABLE)\<rparr>"

text \<open>Node 7, a private waiter on condition variable 1 and mutex 1, has been signaled.\<close>

definition st_signaled :: st where
  "st_signaled = upd_node 7 (\<lambda>_. (new_node 1 1)\<lparr>state := SIGNALED, barrier := 1\<rparr>) st0"

text \<open>The calls to the mutex in a trace.\<close>

fun is_mutex_event :: "event \<Rightarrow> bool" where
  "is_mutex_event (MutexLock m r) = True"
| "is_mutex_event (MutexUnlock m) = True"
| "is_mutex_event _ = False"

definition mutex_events :: "event list \<Rightarrow> event list" where
  "mutex_events tr = filter is_mutex_event tr"

text \<open>Modelled from the spec: the mutex is a collaborator of which only the lock and
  unlock operations and the \<open>OWNER_DEAD\<close> return are required.  A lock operation acquires
  the mutex when it returns 0 or \<open>OWNER_DEAD\<close> and fails otherwise (the reacquisition
  "failed", section 4.3); an unlock operation releases it.  \<open>holds_after m h tr\<close> tells
  whether the thread holds \<open>m\<close> after the calls of \<open>tr\<close>, when \<open>h\<close> tells it before.\<close>

fun mutex_step :: "addr \<Rightarrow> bool \<Rightarrow> event \<Rightarrow> bool" where
  "mutex_step m h (MutexLock m' r) = (if m' = m \<and> (r = 0 \<or> r = EOWNERDEAD) then True else h)"
| "mutex_step m h (MutexUnlock m') = (if m' = m then False else h)"
| "mutex_step m h _ = h"

definition holds_after :: "addr \<Rightarrow> bool \<Rightarrow> event list \<Rightarrow> bool" where
  "holds_after m h tr = foldl (mutex_step m) h tr"

text \<open>The fields \<open>mutex\<close> and \<open>mutex_ret\<close> of a node are written by the thread that owns the
  node only: the other threads leave them as they are.\<close>

definition owner_fields_kept :: "env \<Rightarrow> addr \<Rightarrow> bool" where
  "owner_fields_kept E node =
     (\<forall>k h. mutex (waiters (interfere E k h) node) = mutex (waiters h node)
          \<and> mutex_ret (waiters (interfere E k h) node) = mutex_ret (waiters h node))"

definition own :: "addr \<Rightarrow> st \<Rightarrow> addr \<times> int" where
  "own node s = (mutex (nd s node), mutex_ret (nd s node))"

text \<open>From \<open>s\<close> to \<open>s'\<close> the thread has not called the mutex, and the owner's fields of the
  node are the same.\<close>

definition calm :: "addr \<Rightarrow> st \<Rightarrow> st \<Rightarrow> bool" where
  "calm node s s' = (mutex_events (trace s') = mutex_events (trace s) \<and> own node s' = own node s)"

text \<open>From \<open>s\<close> to \<open>s'\<close> the thread has called the mutex once, to lock the mutex of the
  node, and has stored the result in the node.\<close>

definition relocked :: "env \<Rightarrow> addr \<Rightarrow> st \<Rightarrow> st \<Rightarrow> bool" where
  "relocked E node s s' =
     (\<exists>k. mutex_events (trace s') =
             mutex_events (trace s) @ [MutexLock (mutex (nd s node)) (mutex_lock_result E k)]
          \<and> mutex (nd s' node) = mutex (nd s node)
          \<and> mutex_ret (nd s' node) = mutex_lock_result E k)"
text \<open>The store of \<open>pthread_cond_timedwait\<close> once the two checks and the cancellation
  point are behind (line 152).\<close>

definition past_checks :: "env \<Rightarrow> addr \<Rightarrow> addr \<Rightarrow> addr \<Rightarrow> st \<Rightarrow> st" where
  "past_checks E c m node s =
     log (CvLoad c F_shared)
       (snd (pthread_testcancel E (log (CvLoad c F_clock) (upd_node node (\<lambda>_. new_node c m) s))))"

text \<open>While node 7 waits (the question of tick 1 is its \<open>__timedwait\<close>), a signaler claims
  it and takes it off the condition variable 1; the wait then returns 0.\<close>

definition env_signal :: env where
  "env_signal = env0
     \<lparr>interfere := (\<lambda>k h. if k = 1
         then upd_cond 1 (\<lambda>x. x\<lparr>c_head := 0, c_tail := 0\<rparr>)
                (upd_node 7 (\<lambda>x. x\<lparr>state := SIGNALED, barrier := 0\<rparr>) h)
         else h),
      timedwait_result := (\<lambda>k. TW_Return 0)\<rparr>"

text \<open>Every wait of node 7 is interrupted; during the second one (the question of tick 2) a
  signaler claims the node.\<close>

definition env_eintr :: env where
  "env_eintr = env0
     \<lparr>interfere := (\<lambda>k h. if k = 2
         then upd_cond 1 (\<lambda>x. x\<lparr>c_head := 0, c_tail := 0\<rparr>)
                (upd_node 7 (\<lambda>x. x\<lparr>state := SIGNALED, barrier := 0\<rparr>) h)
         else h),
      timedwait_result := (\<lambda>k. TW_Return EINTR)\<rparr>"

fun is_timedwait :: "event \<Rightarrow> bool" where
  "is_timedwait (TimedWait fut val clock ts priv) = True"
| "is_timedwait _ = False"

subsection \<open>Waiter lists\<close>

text \<open>\<open>dll W nx ws\<close>: in the node store \<open>W\<close> the nodes \<open>ws\<close>, oldest first, are linked as the C
  code links them: \<open>next\<close> points to the next older node (\<open>nx\<close> for the oldest of \<open>ws\<close>),
  \<open>prev\<close> to the next newer one (null for the newest).\<close>

fun dll :: "(addr \<Rightarrow> waiter) \<Rightarrow> addr \<Rightarrow> addr list \<Rightarrow> bool" where
  "dll W nx [] = True"
| "dll W nx (x # xs) =
     (x \<noteq> 0 \<and> next (W x) = nx \<and> prev (W x) = (case xs of [] \<Rightarrow> 0 | y # _ \<Rightarrow> y) \<and> dll W x xs)"

definition hd0 :: "addr list \<Rightarrow> addr" where
  "hd0 ws = (case ws of [] \<Rightarrow> 0 | x # _ \<Rightarrow> x)"

definition last0 :: "addr list \<Rightarrow> addr" where
  "last0 ws = (if ws = [] then 0 else last ws)"

text \<open>The list of the private condition variable \<open>c\<close> holds the nodes \<open>ws\<close>, oldest first:
  the tail pointer names the oldest and the head pointer the newest.\<close>

definition cv_list :: "st \<Rightarrow> addr \<Rightarrow> addr list \<Rightarrow> bool" where
  "cv_list s c ws =
     (distinct ws \<and> dll (waiters s) 0 ws
      \<and> c_tail (conds s c) = hd0 ws \<and> c_head (conds s c) = last0 ws)"

text \<open>How many nodes of \<open>ws\<close> the walk of \<open>__private_cond_signal\<close> visits, when \<open>st\<close> gives
  the state of each node and \<open>n\<close> is the number of nodes still to claim.\<close>

fun walk_len :: "(addr \<Rightarrow> int) \<Rightarrow> int \<Rightarrow> addr list \<Rightarrow> nat" where
  "walk_len st n [] = 0"
| "walk_len st n (x # xs) =
     (if n = 0 then 0 else Suc (walk_len st (if st x = WAITING then n - 1 else n) xs))"

text \<open>The store after the walk has visited the nodes \<open>vs\<close>: the waiting ones are
  signaled, the others point to the counter \<open>ref\<close>, which counts them.\<close>

definition walked :: "addr \<Rightarrow> addr list \<Rightarrow> st \<Rightarrow> st" where
  "walked r vs s =
     s\<lparr>waiters := (\<lambda>x. if x \<in> set vs
                         then (if state (waiters s x) = WAITING
                               then (waiters s x)\<lparr>state := SIGNALED\<rparr>
                               else (waiters s x)\<lparr>notify := Some (Local r)\<rparr>)
                         else waiters s x),
       locals := (locals s)(r := locals s r
                    + int (length (filter (\<lambda>x. state (waiters s x) \<noteq> WAITING) vs)))\<rparr>"

text \<open>The nodes whose state futex a trace wakes, in order.\<close>

fun woken :: "event \<Rightarrow> addr list" where
  "woken (FutexWake (W_state a) cnt priv) = [a]"
| "woken _ = []"

definition state_wakes :: "event list \<Rightarrow> addr list" where
  "state_wakes tr = concat (map woken tr)"
text \<open>A segment of a waiter list: as \<open>dll\<close>, but the newest node of \<open>ws\<close> has \<open>pv\<close> as its
  \<open>prev\<close> pointer.\<close>

fun dseg :: "(addr \<Rightarrow> waiter) \<Rightarrow> addr \<Rightarrow> addr list \<Rightarrow> addr \<Rightarrow> bool" where
  "dseg W nx [] pv = True"
| "dseg W nx (x # xs) pv =
     (x \<noteq> 0 \<and> next (W x) = nx \<and> prev (W x) = (case xs of [] \<Rightarrow> pv | y # _ \<Rightarrow> y)
      \<and> dseg W x xs pv)"

text \<open>\<open>k\<close> successive calls \<open>__private_cond_signal(c, 1)\<close>.\<close>

fun signals :: "env \<Rightarrow> addr \<Rightarrow> addr \<Rightarrow> nat \<Rightarrow> st \<Rightarrow> st option" where
  "signals E c r 0 s = Some s"
| "signals E c r (Suc k) s =
     (case private_cond_signal E c 1 r s of None \<Rightarrow> None | Some x \<Rightarrow> signals E c r k (snd x))"

text \<open>The threads whose nodes are \<open>ws\<close> enter \<open>pthread_cond_timedwait\<close> on the private
  condition variable \<open>c\<close> with mutex \<open>m\<close>, one after the other, and register (lines 141 and
  158 to 168).\<close>

fun enqueue :: "env \<Rightarrow> addr \<Rightarrow> addr \<Rightarrow> addr list \<Rightarrow> st \<Rightarrow> st option" where
  "enqueue E c m [] s = Some s"
| "enqueue E c m (w # ws) s =
     (case register_private E c w (upd_node w (\<lambda>_. new_node c m) s) of
        None \<Rightarrow> None
      | Some reg \<Rightarrow> enqueue E c m ws (snd (snd reg)))"

text \<open>A chain of three claimed nodes, 1 the oldest, whose barriers the signaler holds.\<close>

definition st_chain :: st where
  "st_chain = st0\<lparr>waiters := (\<lambda>_. new_node 0 0)
     (1 := (new_node 9 9)\<lparr>state := SIGNALED, barrier := 1, prev := 2, next := 0\<rparr>,
      2 := (new_node 9 9)\<lparr>state := SIGNALED, barrier := 1, prev := 3, next := 1\<rparr>,
      3 := (new_node 9 9)\<lparr>state := SIGNALED, barrier := 2, prev := 0, next := 2\<rparr>)\<rparr>"

text \<open>Nodes 11 and 12 wait on the private condition variable 1; then the thread of node 11
  times out and has just set its state to \<open>LEAVING\<close> (line 72).\<close>

definition st_leaving :: st where
  "st_leaving =
     (case enqueue env0 1 1 [11, 12] st0 of
        None \<Rightarrow> st0
      | Some s \<Rightarrow> upd_node 11 (\<lambda>x. x\<lparr>state := LEAVING\<rparr>) s)"

text \<open>While the signaler waits for its counter (its first question), the thread of node 11
  goes on through path A of \<open>unwait\<close> up to the notification (lines 80 to 93).\<close>

definition env_leaver :: env where
  "env_leaver = env0
     \<lparr>interfere := (\<lambda>k h. if k = 0
         then (case unwait_leave env0 11 h of None \<Rightarrow> h | Some h' \<Rightarrow> h') else h)\<rparr>"

text \<open>The first time the signaler is preempted, the thread of node 1 runs \<open>unwait\<close> to its
  end: it gets the mutex, requeues its successor and unlinks itself (lines 96 to 136).\<close>

definition env_departing :: env where
  "env_departing = env0
     \<lparr>interfere := (\<lambda>k h. if k = 0
         then (case unwait env0 1 h of None \<Rightarrow> h | Some h' \<Rightarrow> h') else h)\<rparr>"

text \<open>In the chain \<open>qs\<close> (oldest first) the nodes already requeued to the mutex are the
  oldest ones: behind the first node that is not requeued, none is.\<close>

definition requeued_oldest :: "(addr \<Rightarrow> waiter) \<Rightarrow> addr list \<Rightarrow> bool" where
  "requeued_oldest W qs =
     (\<forall>x\<in>set (dropWhile (\<lambda>x. requeued (W x) \<noteq> 0) qs). requeued (W x) = 0)"

text \<open>Modelled from the spec: the requeue successor is the node nearest the tail of the
  detached list (the oldest end) that is not \<open>node\<close> itself and not marked requeued; null
  if there is none.\<close>

definition successor_spec :: "(addr \<Rightarrow> waiter) \<Rightarrow> addr list \<Rightarrow> addr \<Rightarrow> addr" where
  "successor_spec W qs node = hd0 (filter (\<lambda>x. x \<noteq> node \<and> requeued (W x) = 0) qs)"

text \<open>A detached chain of three signaled nodes of mutex 9, none requeued; node 1, the
  oldest, has taken its barrier and departs.  The mutex is process-shared.\<close>

definition st_depart :: st where
  "st_depart = st0\<lparr>waiters := (\<lambda>_. new_node 0 0)
     (1 := (new_node 8 9)\<lparr>state := SIGNALED, barrier := 1, prev := 2, next := 0\<rparr>,
      2 := (new_node 8 9)\<lparr>state := SIGNALED, barrier := 0, prev := 3, next := 1\<rparr>,
      3 := (new_node 8 9)\<lparr>state := SIGNALED, barrier := 0, prev := 0, next := 2\<rparr>),
     mutexes := (\<lambda>_. mutex0)(9 := mutex0\<lparr>m_type := 128\<rparr>)\<rparr>"

text \<open>A kernel that rejects the first futex call of the thread with \<open>EINVAL\<close>.\<close>

definition env_einval :: env where
  "env_einval = env0\<lparr>futex_result := (\<lambda>k. if k = 0 then - EINVAL else 0)\<rparr>"

text \<open>The futex operations of a trace that wake without requeueing: \<open>__wake\<close>, or a raw
  system call whose command is \<open>FUTEX_WAKE\<close>.\<close>

fun is_futex_wake :: "event \<Rightarrow> bool" where
  "is_futex_wake (FutexWake l cnt priv) = True"
| "is_futex_wake (SysFutex l op val val2 l2) = (op = FUTEX_WAKE \<or> op = FUTEX_WAKE OR 128)"
| "is_futex_wake _ = False"

(*DEFS-END*)

section \<open>Properties\<close>

declare lock_loop.simps [code] deadlock.simps [code] find_tail.simps [code]
  skip_requeued.simps [code] wait_loop.simps [code] signal_walk.simps [code]
  signal_drain.simps [code] signal_wake.simps [code] signal_wake_preempt.simps [code]

lemmas state_defs = log_def tock_def suspend_def nd_def upd_node_def upd_cond_def
  upd_mutex_def load_def note_atomic_def

lemmas atomic_defs = a_cas_def a_swap_def a_fetch_add_def a_inc_def a_dec_def wake_def
  wait_def pthread_mutex_lock_def pthread_mutex_unlock_def pthread_testcancel_def
  syscall_futex_def

lemmas const_defs = WAITING_def SIGNALED_def LEAVING_def EPERM_def EINTR_def EINVAL_def
  ETIMEDOUT_def EOWNERDEAD_def ENOTRECOVERABLE_def INT_MAX_def FUTEX_WAKE_def
  FUTEX_REQUEUE_def

lemmas fixture_defs = env0_def cond0_def mutex0_def st0_def st_errorcheck_def ts_big_def
  ts_neg_def new_node_def

subsection \<open>The nanosecond comparison\<close>

text \<open>\<open>ts->tv_nsec >= 1000000000UL\<close> converts the \<open>long\<close> to \<open>unsigned long\<close>; the order
  on words is the unsigned one.\<close>

lemma uint_of_sint64:
  "uint (x :: 64 word) = (if sint x < 0 then sint x + 2 ^ 64 else sint x)"
proof -
  have u: "uint x = sint x mod 2 ^ 64"
    by (simp add: uint_sint take_bit_eq_mod)
  have lo: "- (2 ^ 63) \<le> sint x" using sint_ge [of x] by simp
  have hi: "sint x < 2 ^ 63" using sint_lt [of x] by simp
  show ?thesis
  proof (cases "sint x < 0")
    case True
    have "sint x mod 2 ^ 64 = (sint x + 2 ^ 64) mod 2 ^ 64" by simp
    also have "\<dots> = sint x + 2 ^ 64"
      using lo True by (intro mod_pos_pos_trivial) auto
    finally show ?thesis using u True by simp
  next
    case False
    then have "sint x mod 2 ^ 64 = sint x"
      using hi by (intro mod_pos_pos_trivial) auto
    then show ?thesis using u False by simp
  qed
qed

lemma neg_nsec_is_large: "sint (x :: 64 word) < 0 \<Longrightarrow> 1000000000 \<le> x"
  using sint_ge [of x] by (simp add: word_le_def uint_of_sint64)

lemma big_nsec_is_large: "1000000000 \<le> sint (x :: 64 word) \<Longrightarrow> 1000000000 \<le> x"
  by (simp add: word_le_def uint_of_sint64)

lemma ok_nsec_is_small:
  "0 \<le> sint (x :: 64 word) \<Longrightarrow> sint x < 1000000000 \<Longrightarrow> \<not> 1000000000 \<le> x"
  by (simp add: word_le_def uint_of_sint64)

subsection \<open>The precondition checks\<close>

text \<open>
  Claim C3, as stated, fails twice.  A deadline with \<open>nsec \<ge> 10\<^sup>9\<close> does not give
  \<open>EINVAL\<close> when the ownership test fails as well: the ownership test comes first and the
  call returns \<open>EPERM\<close>.  And the return does not precede every read of the condition
  variable: its clock id is read in the declarations, before both tests.
\<close>

theorem C3_counterexample:
  "1000000000 \<le> sint (tv_nsec ts_big)
   \<and> map_option fst (pthread_cond_timedwait env0 5 1 1 (Some ts_big) 7 st_errorcheck)
       = Some (Returned EPERM)
   \<and> EPERM \<noteq> EINVAL
   \<and> map_option (trace \<circ> snd) (pthread_cond_timedwait env0 5 1 1 (Some ts_big) 7 st_errorcheck)
       = Some [CvLoad 1 F_clock]"
  by (simp add: pthread_cond_timedwait_def state_defs fixture_defs const_defs)

text \<open>
  Claim C3, amended: if the mutex is of an error-checking type and its lock word does not
  name the caller, the call returns \<open>EPERM\<close>; otherwise, if a deadline is supplied with
  \<open>nsec \<ge> 10\<^sup>9\<close>, it returns \<open>EINVAL\<close>.  In both cases nothing of the condition variable
  has been written (no node inserted, no lock taken, no counter changed, no question asked
  to the environment); the only access to it is the read of its clock id.
\<close>

theorem C3_precondition_checks:
  assumes "(m_type (mutexes s m) AND 15 \<noteq> 0 \<and> m_lock (mutexes s m) AND INT_MAX \<noteq> self)
      \<or> (\<exists>t. ts = Some t \<and> 1000000000 \<le> sint (tv_nsec t))"
  shows "\<exists>s'. pthread_cond_timedwait E self c m ts node s =
           Some (Returned (if m_type (mutexes s m) AND 15 \<noteq> 0
                              \<and> m_lock (mutexes s m) AND INT_MAX \<noteq> self
                           then EPERM else EINVAL), s')
         \<and> conds s' = conds s \<and> mutexes s' = mutexes s \<and> locals s' = locals s
         \<and> (\<forall>a. a \<noteq> node \<longrightarrow> waiters s' a = waiters s a)
         \<and> tick s' = tick s \<and> trace s' = trace s @ [CvLoad c F_clock]"
  using assms
  by (auto simp: pthread_cond_timedwait_def Let_def upd_node_def log_def big_nsec_is_large)

theorem C3_witness:
  "map_option fst (pthread_cond_timedwait env0 5 1 1 (Some ts_big) 7 st0)
     = Some (Returned EINVAL)
   \<and> map_option (conds \<circ> snd) (pthread_cond_timedwait env0 5 1 1 (Some ts_big) 7 st0)
     = Some (conds st0)"
  using C3_precondition_checks [of st0 1 5 "Some ts_big" env0 1 7]
  by (auto simp: fixture_defs)

subsection \<open>Negative nanoseconds\<close>

text \<open>
  Claim C10, as stated, fails where the ownership test fails: that test comes first, and a
  negative \<open>tv_nsec\<close> then gives \<open>EPERM\<close>.
\<close>

theorem C10_counterexample:
  "sint (tv_nsec ts_neg) < 0
   \<and> map_option fst (pthread_cond_timedwait env0 5 1 1 (Some ts_neg) 7 st_errorcheck)
       = Some (Returned EPERM)
   \<and> EPERM \<noteq> EINVAL"
  by (simp add: pthread_cond_timedwait_def state_defs fixture_defs const_defs)

text \<open>
  Claim C10, amended: for every deadline with \<open>tv_nsec < 0\<close>, when the ownership test of
  the mutex passes, the call returns \<open>EINVAL\<close>, exactly as for \<open>tv_nsec \<ge> 10\<^sup>9\<close>: the
  comparison is unsigned, so the negative value is a large one.  Nothing of the condition
  variable has been written; the only access to it is the read of its clock id.
\<close>

theorem C10_negative_nsec_rejected:
  assumes "sint (tv_nsec t) < 0"
    and "\<not> (m_type (mutexes s m) AND 15 \<noteq> 0 \<and> m_lock (mutexes s m) AND INT_MAX \<noteq> self)"
  shows "1000000000 \<le> tv_nsec t
         \<and> (\<exists>s'. pthread_cond_timedwait E self c m (Some t) node s = Some (Returned EINVAL, s')
              \<and> conds s' = conds s \<and> mutexes s' = mutexes s \<and> locals s' = locals s
              \<and> (\<forall>a. a \<noteq> node \<longrightarrow> waiters s' a = waiters s a)
              \<and> tick s' = tick s \<and> trace s' = trace s @ [CvLoad c F_clock])"
  using assms
  by (auto simp: pthread_cond_timedwait_def Let_def upd_node_def log_def neg_nsec_is_large)

theorem C10_witness:
  "map_option fst (pthread_cond_timedwait env0 5 1 1 (Some ts_neg) 7 st0)
     = Some (Returned EINVAL)
   \<and> map_option (trace \<circ> snd) (pthread_cond_timedwait env0 5 1 1 (Some ts_neg) 7 st0)
     = Some [CvLoad 1 F_clock]"
  using C10_negative_nsec_rejected [of ts_neg st0 1 5 env0 1 7]
  by (auto simp: fixture_defs)

subsection \<open>Traces only grow\<close>

lemma grows_refl [simp]: "grows s s"
  by (simp add: grows_def)

lemma grows_trans: "grows s s1 \<Longrightarrow> grows s1 s2 \<Longrightarrow> grows s s2"
  by (auto simp: grows_def)

lemma grows_eq_trace: "trace s1 = trace s \<Longrightarrow> grows s1 s2 \<Longrightarrow> grows s s2"
  by (auto simp: grows_def)

lemma trace_wr [simp]: "trace (wr l v s) = trace s"
  by (cases l) (simp_all add: state_defs)

lemma trace_upd [simp]:
  "trace (upd_node a f s) = trace s" "trace (upd_cond c g s) = trace s"
  "trace (upd_mutex m h s) = trace s" "trace (tock s) = trace s"
  "trace (suspend E s) = trace s" "trace (log e s) = trace s @ [e]"
  by (simp_all add: state_defs Let_def)

lemma trace_note_atomic:
  "trace (note_atomic l s) = trace s @ (case cv_of l of None \<Rightarrow> [] | Some (c, f) \<Rightarrow> [CvAtomic c f])"
  by (simp add: note_atomic_def split: option.split)

lemma trace_load:
  "trace (snd (load l s)) = trace s @ (case cv_of l of None \<Rightarrow> [] | Some (c, f) \<Rightarrow> [CvLoad c f])"
  by (simp add: load_def split: option.split)

lemma trace_a_cas: "trace (snd (a_cas l t v s)) = trace (note_atomic l s)"
  by (simp add: a_cas_def Let_def trace_note_atomic)

lemma trace_a_swap: "trace (snd (a_swap l v s)) = trace (note_atomic l s)"
  by (simp add: a_swap_def Let_def trace_note_atomic)

lemma trace_a_fetch_add: "trace (snd (a_fetch_add l v s)) = trace (note_atomic l s)"
  by (simp add: a_fetch_add_def Let_def trace_note_atomic)

named_theorems grows_intros

lemma grows_prims [grows_intros]:
  "grows s x \<Longrightarrow> grows s (log e x)"
  "grows s x \<Longrightarrow> grows s (tock x)"
  "grows s x \<Longrightarrow> grows s (suspend E x)"
  "grows s x \<Longrightarrow> grows s (upd_node a f x)"
  "grows s x \<Longrightarrow> grows s (upd_cond c g x)"
  "grows s x \<Longrightarrow> grows s (upd_mutex m h x)"
  "grows s x \<Longrightarrow> grows s (wr l v x)"
  "grows s x \<Longrightarrow> grows s (note_atomic l x)"
  "grows s x \<Longrightarrow> grows s (snd (load l x))"
  "grows s x \<Longrightarrow> grows s (snd (a_cas l t v x))"
  "grows s x \<Longrightarrow> grows s (snd (a_swap l v x))"
  "grows s x \<Longrightarrow> grows s (snd (a_fetch_add l v x))"
  by (auto simp: grows_def trace_note_atomic trace_load trace_a_cas trace_a_swap
      trace_a_fetch_add)

lemma grows_calls [grows_intros]:
  "grows s x \<Longrightarrow> grows s (a_inc l x)"
  "grows s x \<Longrightarrow> grows s (a_dec l x)"
  "grows s x \<Longrightarrow> grows s (wake l cnt priv x)"
  "grows s x \<Longrightarrow> grows s (wait E l val priv x)"
  "grows s x \<Longrightarrow> grows s (snd (pthread_mutex_lock E m x))"
  "grows s x \<Longrightarrow> grows s (pthread_mutex_unlock m x)"
  "grows s x \<Longrightarrow> grows s (snd (pthread_testcancel E x))"
  "grows s x \<Longrightarrow> grows s (snd (syscall_futex E l op val val2 l2 x))"
  by (simp_all add: atomic_defs Let_def grows_prims del: wr.simps)

lemma grows_unlock [grows_intros]: "grows s x \<Longrightarrow> grows s (unlock l x)"
  by (simp add: unlock_def Let_def grows_intros)

lemma grows_lock_loop:
  assumes "lock_loop E l x = Some s'"
  shows "grows x s'"
proof (rule lock_loop.raw_induct [where P = "\<lambda>E l x s'. grows x s'", OF _ assms])
  fix f E l x s'
  assume IH: "\<And>E l x y. f E l x = Some y \<Longrightarrow> grows x y"
    and step: "(let s1 = wait E l 2 1 x; r = a_cas l 0 2 s1
                in if fst r \<noteq> 0 then f E l (snd r) else Some (snd r)) = Some s'"
  let ?r = "a_cas l 0 2 (wait E l 2 1 x)"
  have g: "grows x (snd ?r)"
    by (intro grows_intros) simp
  show "grows x s'"
  proof (cases "fst ?r \<noteq> 0")
    case True
    with step have "f E l (snd ?r) = Some s'" by (simp add: Let_def)
    then have "grows (snd ?r) s'" by (rule IH)
    with g show ?thesis by (rule grows_trans)
  next
    case False
    with step g show ?thesis by (simp add: Let_def)
  qed
qed

lemma grows_lock:
  assumes "lock E l x = Some s'"
  shows "grows x s'"
proof (cases "fst (a_cas l 0 1 x) \<noteq> 0")
  case True
  let ?y = "snd (a_cas l 1 2 (snd (a_cas l 0 1 x)))"
  have "grows x ?y" by (intro grows_intros) simp
  moreover have "grows ?y s'"
    using assms True by (intro grows_lock_loop) (simp add: lock_def Let_def)
  ultimately show ?thesis by (rule grows_trans)
next
  case False
  with assms have "s' = snd (a_cas l 0 1 x)" by (simp add: lock_def Let_def)
  then show ?thesis by (simp add: grows_intros)
qed

lemma grows_unlink_from_cv [grows_intros]: "grows s x \<Longrightarrow> grows s (unlink_from_cv c node x)"
  by (simp add: unlink_from_cv_def Let_def grows_intros)

lemma grows_notify_signaler [grows_intros]: "grows s x \<Longrightarrow> grows s (notify_signaler node x)"
  by (simp add: notify_signaler_def Let_def grows_intros split: option.split)

lemma grows_unwait_leave:
  assumes "unwait_leave E node x = Some s'"
  shows "grows x s'"
proof -
  from assms obtain s1 where l: "lock E (C_lock (cond (nd x node))) x = Some s1"
    and s': "s' = notify_signaler node (unlock (C_lock (cond (nd x node)))
                    (unlink_from_cv (cond (nd x node)) node s1))"
    by (auto simp: unwait_leave_def Let_def bind_eq_Some_conv)
  have "grows x s1" using l by (rule grows_lock)
  then show ?thesis unfolding s' by (intro grows_intros)
qed

lemma grows_requeue_successor [grows_intros]:
  "grows s x \<Longrightarrow> grows s (requeue_successor E node p x)"
  by (simp add: requeue_successor_def Let_def grows_intros)

lemma grows_unlink_self [grows_intros]: "grows s x \<Longrightarrow> grows s (unlink_self node x)"
  by (simp add: unlink_self_def Let_def grows_intros)

lemma grows_unwait_requeue:
  assumes "unwait_requeue E node x = Some s'"
  shows "grows x s'"
proof -
  let ?s1 = "if requeued (nd x node) \<noteq> 0 then a_dec (M_waiters (mutex (nd x node))) x else x"
  from assms obtain p where
    s': "s' = unlink_self node (if p \<noteq> 0 then requeue_successor E node p ?s1 else ?s1)"
    by (auto simp: unwait_requeue_def Let_def bind_eq_Some_conv)
  have "grows x ?s1" by (simp add: grows_intros)
  then show ?thesis unfolding s' by (simp add: grows_intros)
qed

lemma deadlock_None [simp]: "deadlock E s = None"
proof -
  have "deadlock E s = Some y \<Longrightarrow> False" for y
    by (rule deadlock.raw_induct [where P = "\<lambda>_ _ _. False"]) (auto simp: bind_eq_Some_conv)
  then show ?thesis by (cases "deadlock E s") auto
qed

lemma grows_set_mutex_ret [grows_intros]: "grows s x \<Longrightarrow> grows s (set_mutex_ret node r x)"
  by (simp add: set_mutex_ret_def grows_intros)

lemma grows_unwait:
  assumes "unwait E node x = Some s'"
  shows "grows x s'"
proof (cases "shared (nd x node) \<noteq> 0")
  case True
  with assms show ?thesis
    by (auto simp: unwait_def Let_def intro!: grows_intros)
next
  case False
  let ?x = "a_cas (W_state node) WAITING LEAVING x"
  from assms False obtain s2 where
    s2: "(if fst ?x = WAITING then unwait_leave E node (snd ?x) else Some (snd ?x)) = Some s2"
    and rest: "(let y = pthread_mutex_lock E (mutex (nd s2 node)) s2;
                    s4 = set_mutex_ret node (fst y) (snd y)
                in if fst ?x = WAITING then Some s4
                   else if mutex_ret (nd s4 node) \<noteq> 0 \<and> mutex_ret (nd s4 node) \<noteq> EOWNERDEAD
                   then deadlock E s4
                   else lock E (W_barrier node) s4 \<bind> unwait_requeue E node) = Some s'"
    by (auto simp: unwait_def Let_def bind_eq_Some_conv)
  have g2: "grows x s2"
  proof (cases "fst ?x = WAITING")
    case True
    with s2 have "grows (snd ?x) s2" by (simp add: grows_unwait_leave)
    then show ?thesis by (rule grows_trans [rotated]) (simp add: grows_intros)
  next
    case False
    with s2 show ?thesis by (auto simp: grows_intros)
  qed
  let ?s4 = "set_mutex_ret node (fst (pthread_mutex_lock E (mutex (nd s2 node)) s2))
               (snd (pthread_mutex_lock E (mutex (nd s2 node)) s2))"
  have g4: "grows x ?s4" using g2 by (intro grows_intros)
  show ?thesis
  proof (cases "fst ?x = WAITING")
    case True
    with rest g4 show ?thesis by (simp add: Let_def)
  next
    case False
    with rest obtain s5 where "lock E (W_barrier node) ?s4 = Some s5"
      and "unwait_requeue E node s5 = Some s'"
      by (auto simp: Let_def bind_eq_Some_conv split: if_splits)
    then have "grows ?s4 s5" and "grows s5 s'"
      by (auto intro: grows_lock grows_unwait_requeue)
    with g4 show ?thesis by (blast intro: grows_trans)
  qed
qed


lemma grows_timedwait:
  assumes "timedwait E fut val clock ts node priv x = Some (res, s1)"
  shows "grows (log (TimedWait fut val clock ts priv) x) s1"
proof (cases "timedwait_result E (tick x)")
  case (TW_Return e)
  with assms show ?thesis by (auto simp: timedwait_def Let_def grows_intros)
next
  case TW_Cancel
  with assms have "unwait E node (suspend E (log (TimedWait fut val clock ts priv) x)) = Some s1"
    by (auto simp: timedwait_def Let_def)
  then have "grows (suspend E (log (TimedWait fut val clock ts priv) x)) s1"
    by (rule grows_unwait)
  then show ?thesis by (rule grows_trans [rotated]) (simp add: grows_intros)
qed

lemma grows_wait_loop:
  assumes "wait_loop E fut seq clock ts node x = Some r"
  shows "grows x (snd r)"
proof (rule wait_loop.raw_induct
    [where P = "\<lambda>E fut seq clock ts node x r. grows x (snd r)", OF _ assms])
  fix f E fut seq clock ts node x r
  assume IH: "\<And>E fut seq clock ts node x y. f E fut seq clock ts node x = Some y \<Longrightarrow> grows x (snd y)"
    and step: "(case timedwait E fut seq clock ts node (if shared (nd x node) = 0 then 1 else 0) x of
        None \<Rightarrow> None
      | Some (TW_Return e, s1) \<Rightarrow>
          (let v = load fut s1
           in if fst v = seq \<and> (e = 0 \<or> e = EINTR)
              then f E fut seq clock ts node (snd v)
              else Some (TW_Return e, snd v))
      | Some (TW_Cancel, s1) \<Rightarrow> Some (TW_Cancel, s1)) = Some r"
  let ?priv = "if shared (nd x node) = 0 then 1 else (0::int)"
  from step obtain res s1 where tw: "timedwait E fut seq clock ts node ?priv x = Some (res, s1)"
    by (auto split: option.splits)
  have g1: "grows x s1"
    using grows_timedwait [OF tw] by (rule grows_trans [rotated]) (simp add: grows_intros)
  show "grows x (snd r)"
  proof (cases res)
    case TW_Cancel
    with step tw g1 show ?thesis by auto
  next
    case (TW_Return e)
    have g2: "grows x (snd (load fut s1))" using g1 by (intro grows_intros)
    show ?thesis
    proof (cases "fst (load fut s1) = seq \<and> (e = 0 \<or> e = EINTR)")
      case True
      with step tw TW_Return have "f E fut seq clock ts node (snd (load fut s1)) = Some r"
        by (simp add: Let_def)
      then have "grows (snd (load fut s1)) (snd r)" by (rule IH)
      with g2 show ?thesis by (rule grows_trans)
    next
      case False
      with step tw TW_Return g2 show ?thesis by (auto simp: Let_def)
    qed
  qed
qed

lemma wait_loop_first_event:
  assumes "wait_loop E fut seq clock ts node x = Some r"
  shows "\<exists>evs. trace (snd r) =
           trace x @ TimedWait fut seq clock ts (if shared (nd x node) = 0 then 1 else 0) # evs"
proof -
  let ?priv = "if shared (nd x node) = 0 then 1 else (0::int)"
  from assms obtain res s1 where tw: "timedwait E fut seq clock ts node ?priv x = Some (res, s1)"
    by (subst (asm) wait_loop.simps) (auto split: option.splits)
  have g1: "grows (log (TimedWait fut seq clock ts ?priv) x) s1"
    by (rule grows_timedwait [OF tw])
  have "grows s1 (snd r)"
  proof (cases res)
    case TW_Cancel
    with assms tw show ?thesis by (subst (asm) wait_loop.simps) auto
  next
    case (TW_Return e)
    show ?thesis
    proof (cases "fst (load fut s1) = seq \<and> (e = 0 \<or> e = EINTR)")
      case True
      with assms tw TW_Return have "wait_loop E fut seq clock ts node (snd (load fut s1)) = Some r"
        by (subst (asm) wait_loop.simps) (simp add: Let_def)
      then have "grows (snd (load fut s1)) (snd r)" by (rule grows_wait_loop)
      then show ?thesis by (rule grows_trans [rotated]) (simp add: grows_intros)
    next
      case False
      with assms tw TW_Return have "r = (TW_Return e, snd (load fut s1))"
        by (subst (asm) wait_loop.simps) (auto simp: Let_def)
      then show ?thesis by (simp add: grows_intros)
    qed
  qed
  with g1 have "grows (log (TimedWait fut seq clock ts ?priv) x) (snd r)" by (rule grows_trans)
  then show ?thesis by (auto simp: grows_def)
qed

lemma grows_wait_finish:
  assumes "wait_finish E node r = Some (out, s')"
  shows "grows (snd r) s'"
proof (cases "fst r")
  case TW_Cancel
  with assms show ?thesis by (simp add: wait_finish_def)
next
  case (TW_Return e)
  with assms have "unwait E node (snd r) = Some s'"
    by (auto simp: wait_finish_def bind_eq_Some_conv)
  then show ?thesis by (rule grows_unwait)
qed

subsection \<open>Registration on a process-shared condition variable\<close>

lemma register_shared_effect:
  "fst (register_shared c node s) = C_seq c"
  "fst (snd (register_shared c node s)) = c_seq (conds s c)"
  "trace (snd (snd (register_shared c node s))) = trace s @ [CvLoad c F_seq, CvAtomic c F_waiters]"
  "c_waiters (conds (snd (snd (register_shared c node s))) c) = wrap32 (c_waiters (conds s c) + 1)"
  "c_seq (conds (snd (snd (register_shared c node s))) c) = c_seq (conds s c)"
  "shared (nd (snd (snd (register_shared c node s))) node) = 1"
  by (simp_all add: register_shared_def Let_def state_defs atomic_defs)

text \<open>
  Claim C6, as stated, fails: the code takes the snapshot of \<open>seq\<close> first and increments
  \<open>waiters\<close> after it (lines 155 and 156).
\<close>

theorem C6_counterexample:
  "\<not> precedes (CvAtomic 1 F_waiters) (CvLoad 1 F_seq)
       (trace (snd (snd (register_shared 1 7 st_shared))))
   \<and> precedes (CvLoad 1 F_seq) (CvAtomic 1 F_waiters)
       (trace (snd (snd (register_shared 1 7 st_shared))))
   \<and> map_option (take 7 \<circ> trace \<circ> snd) (pthread_cond_timedwait env0 5 1 1 None 7 st_shared)
       = Some [CvLoad 1 F_clock, TestCancel, CvLoad 1 F_shared, CvLoad 1 F_seq,
               CvAtomic 1 F_waiters, MutexUnlock 1, TimedWait (C_seq 1) 9 0 None 0]"
  by (simp add: precedes_def pthread_cond_timedwait_def register_shared_def wait_finish_def
      wait_loop.simps timedwait_def unwait_def set_mutex_ret_def Let_def
      state_defs atomic_defs fixture_defs st_shared_def const_defs)

text \<open>
  Claim C6, amended: on the process-shared path the call snapshots \<open>cv.seq\<close>, then
  atomically increments \<open>cv.waiters\<close>, then releases the mutex and blocks on
  \<open>futex_wait(&cv.seq, snapshot, deadline)\<close>; the snapshot is taken before the increment.
\<close>

theorem C6_snapshot_then_increment:
  assumes sh: "c_shared (conds s c) \<noteq> 0"
    and own: "\<not> (m_type (mutexes s m) AND 15 \<noteq> 0 \<and> m_lock (mutexes s m) AND INT_MAX \<noteq> self)"
    and dl: "\<not> (case ts of None \<Rightarrow> False | Some t \<Rightarrow> 1000000000 \<le> tv_nsec t)"
    and nc: "\<not> cancel_pending E (tick s)"
    and run: "pthread_cond_timedwait E self c m ts node s = Some (out, s')"
  shows "(\<exists>evs. trace s' = trace s @
           [CvLoad c F_clock, TestCancel, CvLoad c F_shared, CvLoad c F_seq,
            CvAtomic c F_waiters, MutexUnlock m,
            TimedWait (C_seq c) (c_seq (conds s c)) (c_clock (conds s c)) ts 0] @ evs)
         \<and> c_waiters (conds (snd (snd (register_shared c node s))) c)
             = wrap32 (c_waiters (conds s c) + 1)"
proof -
  let ?s3 = "log (CvLoad c F_shared) (snd (pthread_testcancel E
               (log (CvLoad c F_clock) (upd_node node (\<lambda>_. new_node c m) s))))"
  let ?reg = "register_shared c node ?s3"
  let ?s5 = "pthread_mutex_unlock m (snd (snd ?reg))"
  have c3: "conds ?s3 = conds s" "mutexes ?s3 = mutexes s"
    by (simp_all add: state_defs atomic_defs)
  have t5: "trace ?s5 = trace s @ [CvLoad c F_clock, TestCancel, CvLoad c F_shared,
                                   CvLoad c F_seq, CvAtomic c F_waiters, MutexUnlock m]"
    by (simp add: register_shared_effect pthread_mutex_unlock_def pthread_testcancel_def)
  have sh5: "shared (nd ?s5 node) = 1"
    using register_shared_effect(6) [of c node ?s3]
    by (simp add: pthread_mutex_unlock_def nd_def log_def)
  from run sh own dl nc obtain r where
    wl: "wait_loop E (C_seq c) (c_seq (conds s c)) (c_clock (conds s c)) ts node ?s5 = Some r"
    and fin: "wait_finish E node r = Some (out, s')"
    by (auto simp: pthread_cond_timedwait_def Let_def bind_eq_Some_conv c3
        register_shared_effect pthread_testcancel_def state_defs)
  from wait_loop_first_event [OF wl] sh5 t5 obtain evs where
    "trace (snd r) = trace s @ [CvLoad c F_clock, TestCancel, CvLoad c F_shared,
        CvLoad c F_seq, CvAtomic c F_waiters, MutexUnlock m,
        TimedWait (C_seq c) (c_seq (conds s c)) (c_clock (conds s c)) ts 0] @ evs"
    by auto
  moreover from grows_wait_finish [OF fin] obtain evs' where "trace s' = trace (snd r) @ evs'"
    by (auto simp: grows_def)
  ultimately show ?thesis by (simp add: register_shared_effect)
qed

theorem C6_witness:
  "\<exists>out s' evs. pthread_cond_timedwait env0 5 1 1 None 7 st_shared = Some (out, s')
     \<and> trace s' = [CvLoad 1 F_clock, TestCancel, CvLoad 1 F_shared, CvLoad 1 F_seq,
                    CvAtomic 1 F_waiters, MutexUnlock 1, TimedWait (C_seq 1) 9 0 None 0] @ evs"
proof -
  obtain out s' where run: "pthread_cond_timedwait env0 5 1 1 None 7 st_shared = Some (out, s')"
    by (simp add: pthread_cond_timedwait_def register_shared_def wait_finish_def
        wait_loop.simps timedwait_def unwait_def set_mutex_ret_def Let_def
        state_defs atomic_defs fixture_defs st_shared_def const_defs)
  have "c_shared (conds st_shared 1) \<noteq> 0"
    and "\<not> (m_type (mutexes st_shared 1) AND 15 \<noteq> 0 \<and> m_lock (mutexes st_shared 1) AND INT_MAX \<noteq> 5)"
    and "\<not> (case None :: timespec option of None \<Rightarrow> False | Some t \<Rightarrow> 1000000000 \<le> tv_nsec t)"
    and "\<not> cancel_pending env0 (tick st_shared)"
    by (simp_all add: st_shared_def fixture_defs state_defs)
  from C6_snapshot_then_increment [OF this run] run show ?thesis
    by (simp add: st_shared_def fixture_defs state_defs)
qed

subsection \<open>The fatal condition of \<open>unwait\<close>\<close>

lemma lock_free: "rd s l = 0 \<Longrightarrow> lock E l s = Some (note_atomic l (wr l 1 s))"
  by (simp add: lock_def a_cas_def Let_def)

text \<open>
  Claim C9: on path B of \<open>unwait\<close> (the compare-and-swap on the state of the node did not
  see \<open>WAITING\<close>; it saw \<open>SIGNALED\<close>), if the mutex reacquisition returns a non-zero code
  other than \<open>EOWNERDEAD\<close>, \<open>unwait\<close> never returns.  It does not block either: every round
  of the loop takes a fresh dummy lock, at once.
\<close>

theorem C9_path_B_never_returns:
  assumes "shared (nd s node) = 0" and "state (nd s node) \<noteq> WAITING"
    and "mutex_lock_result E (tick s) \<noteq> 0" and "mutex_lock_result E (tick s) \<noteq> EOWNERDEAD"
  shows "unwait E node s = None
         \<and> (\<forall>x. lock E Dummy (wr Dummy 0 x) = Some (wr Dummy 1 x))"
  using assms
  by (simp add: unwait_def a_cas_def Let_def nd_def note_atomic_def pthread_mutex_lock_def
      set_mutex_ret_def upd_node_def log_def suspend_def lock_free)

theorem C9_witness:
  "unwait env_lock_fails 7 st_signaled = None"
  using C9_path_B_never_returns [of st_signaled 7 env_lock_fails]
  by (simp add: env_lock_fails_def st_signaled_def fixture_defs state_defs const_defs)

subsection \<open>Calls to the mutex\<close>

lemma mutex_events_simps [simp]:
  "mutex_events [] = []"
  "mutex_events (xs @ ys) = mutex_events xs @ mutex_events ys"
  "mutex_events (e # xs) = (if is_mutex_event e then e # mutex_events xs else mutex_events xs)"
  by (simp_all add: mutex_events_def)

lemma holds_after_mutex_events: "holds_after m h (mutex_events tr) = holds_after m h tr"
proof (induction tr arbitrary: h)
  case Nil
  show ?case by simp
next
  case (Cons e tr)
  then show ?case by (cases e) (simp_all add: holds_after_def)
qed

lemma holds_after_relock:
  assumes "mutex_events tr' = mutex_events tr @ [MutexUnlock m, MutexLock m r]"
  shows "holds_after m h tr' \<longleftrightarrow> r = 0 \<or> r = EOWNERDEAD"
proof -
  have "holds_after m h tr' = holds_after m h (mutex_events tr @ [MutexUnlock m, MutexLock m r])"
    using assms holds_after_mutex_events [of m h tr'] by simp
  then show ?thesis by (simp add: holds_after_def)
qed

lemma calm_refl [simp]: "calm node s s"
  by (simp add: calm_def)

lemma calm_trans: "calm node s s1 \<Longrightarrow> calm node s1 s2 \<Longrightarrow> calm node s s2"
  by (simp add: calm_def)

lemma calm_relocked: "calm node s s1 \<Longrightarrow> relocked E node s1 s2 \<Longrightarrow> relocked E node s s2"
  by (auto simp: calm_def relocked_def own_def)

lemma relocked_calm: "relocked E node s s1 \<Longrightarrow> calm node s1 s2 \<Longrightarrow> relocked E node s s2"
  by (auto simp: calm_def relocked_def own_def)

named_theorems calm_intros

lemma calm_prims [calm_intros]:
  "calm node s x \<Longrightarrow> \<not> is_mutex_event e \<Longrightarrow> calm node s (log e x)"
  "calm node s x \<Longrightarrow> calm node s (tock x)"
  "calm node s x \<Longrightarrow> calm node s (upd_cond c g x)"
  "calm node s x \<Longrightarrow> calm node s (upd_mutex m h x)"
  "calm node s x \<Longrightarrow> calm node s (wr l v x)"
  "calm node s x \<Longrightarrow> calm node s (note_atomic l x)"
  "calm node s x \<Longrightarrow> calm node s (snd (load l x))"
  by (cases l; auto simp: calm_def own_def state_defs split: option.splits)+

lemma calm_upd_node [calm_intros]:
  "calm node s x \<Longrightarrow> (\<And>w. mutex (f w) = mutex w) \<Longrightarrow> (\<And>w. mutex_ret (f w) = mutex_ret w)
     \<Longrightarrow> calm node s (upd_node a f x)"
  by (auto simp: calm_def own_def state_defs)

lemma calm_suspend [calm_intros]:
  "calm node s x \<Longrightarrow> owner_fields_kept E node \<Longrightarrow> calm node s (suspend E x)"
  by (auto simp: calm_def own_def state_defs owner_fields_kept_def Let_def)

lemma calm_atomics [calm_intros]:
  "calm node s x \<Longrightarrow> calm node s (snd (a_cas l t v x))"
  "calm node s x \<Longrightarrow> calm node s (snd (a_swap l v x))"
  "calm node s x \<Longrightarrow> calm node s (snd (a_fetch_add l v x))"
  "calm node s x \<Longrightarrow> calm node s (a_inc l x)"
  "calm node s x \<Longrightarrow> calm node s (a_dec l x)"
  "calm node s x \<Longrightarrow> calm node s (wake l cnt priv x)"
  "calm node s x \<Longrightarrow> calm node s (snd (pthread_testcancel E x))"
  "calm node s x \<Longrightarrow> calm node s (snd (syscall_futex E l op val val2 l2 x))"
  by (simp_all add: atomic_defs Let_def calm_prims del: wr.simps)

lemma calm_wait [calm_intros]:
  "calm node s x \<Longrightarrow> owner_fields_kept E node \<Longrightarrow> calm node s (wait E l val priv x)"
  by (simp add: wait_def calm_intros)

lemma calm_unlock [calm_intros]: "calm node s x \<Longrightarrow> calm node s (unlock l x)"
  by (simp add: unlock_def Let_def calm_intros)

lemma calm_lock_loop:
  assumes "lock_loop E l x = Some s'" and rely: "owner_fields_kept E node"
  shows "calm node x s'"
proof -
  have "owner_fields_kept E node \<longrightarrow> calm node x s'"
  proof (rule lock_loop.raw_induct
      [where P = "\<lambda>E l x s'. owner_fields_kept E node \<longrightarrow> calm node x s'", OF _ assms(1)])
    fix f E l x s'
    assume IH: "\<And>E l x y. f E l x = Some y \<Longrightarrow> owner_fields_kept E node \<longrightarrow> calm node x y"
      and step: "(let s1 = wait E l 2 1 x; r = a_cas l 0 2 s1
                  in if fst r \<noteq> 0 then f E l (snd r) else Some (snd r)) = Some s'"
    let ?r = "a_cas l 0 2 (wait E l 2 1 x)"
    show "owner_fields_kept E node \<longrightarrow> calm node x s'"
    proof
      assume rely: "owner_fields_kept E node"
      have g: "calm node x (snd ?r)"
        using rely by (simp add: calm_intros)
      show "calm node x s'"
      proof (cases "fst ?r \<noteq> 0")
        case True
        with step have "f E l (snd ?r) = Some s'" by (simp add: Let_def)
        with IH rely have "calm node (snd ?r) s'" by blast
        with g show ?thesis by (rule calm_trans)
      next
        case False
        with step g show ?thesis by (simp add: Let_def)
      qed
    qed
  qed
  with rely show ?thesis by blast
qed

lemma calm_lock:
  assumes "lock E l x = Some s'" and rely: "owner_fields_kept E node"
  shows "calm node x s'"
proof (cases "fst (a_cas l 0 1 x) \<noteq> 0")
  case True
  let ?y = "snd (a_cas l 1 2 (snd (a_cas l 0 1 x)))"
  have "calm node x ?y" by (simp add: calm_intros)
  moreover have "calm node ?y s'"
    using assms True by (intro calm_lock_loop) (simp_all add: lock_def Let_def)
  ultimately show ?thesis by (rule calm_trans)
next
  case False
  with assms have "s' = snd (a_cas l 0 1 x)" by (simp add: lock_def Let_def)
  then show ?thesis by (simp add: calm_intros)
qed

lemma calm_unlink_from_cv [calm_intros]:
  "calm node s x \<Longrightarrow> calm node s (unlink_from_cv c a x)"
  by (simp add: unlink_from_cv_def Let_def calm_intros)

lemma calm_notify_signaler [calm_intros]:
  "calm node s x \<Longrightarrow> calm node s (notify_signaler a x)"
  by (simp add: notify_signaler_def Let_def calm_intros split: option.split)

lemma calm_unwait_leave:
  assumes "unwait_leave E a x = Some s'" and rely: "owner_fields_kept E node"
  shows "calm node x s'"
proof -
  from assms obtain s1 where l: "lock E (C_lock (cond (nd x a))) x = Some s1"
    and s': "s' = notify_signaler a (unlock (C_lock (cond (nd x a)))
                    (unlink_from_cv (cond (nd x a)) a s1))"
    by (auto simp: unwait_leave_def Let_def bind_eq_Some_conv)
  have "calm node x s1" using l rely by (rule calm_lock)
  then show ?thesis unfolding s' by (simp add: calm_intros)
qed

lemma calm_requeue_successor [calm_intros]:
  "calm node s x \<Longrightarrow> calm node s (requeue_successor E a p x)"
  by (simp add: requeue_successor_def Let_def calm_intros)

lemma calm_unlink_self [calm_intros]: "calm node s x \<Longrightarrow> calm node s (unlink_self a x)"
  by (simp add: unlink_self_def Let_def calm_intros)

lemma calm_unwait_requeue:
  assumes "unwait_requeue E a x = Some s'"
  shows "calm node x s'"
proof -
  let ?s1 = "if requeued (nd x a) \<noteq> 0 then a_dec (M_waiters (mutex (nd x a))) x else x"
  from assms obtain p where
    s': "s' = unlink_self a (if p \<noteq> 0 then requeue_successor E a p ?s1 else ?s1)"
    by (auto simp: unwait_requeue_def Let_def bind_eq_Some_conv)
  show ?thesis unfolding s' by (simp add: calm_intros)
qed

lemma relocked_mutex_lock:
  assumes rely: "owner_fields_kept E node" and m: "m = mutex (nd x node)"
  shows "relocked E node x
           (set_mutex_ret node (fst (pthread_mutex_lock E m x)) (snd (pthread_mutex_lock E m x)))"
  using rely unfolding m
  by (auto simp: relocked_def pthread_mutex_lock_def set_mutex_ret_def Let_def state_defs
      owner_fields_kept_def intro!: exI [of _ "tick x"])

lemma relocked_unwait:
  assumes run: "unwait E node x = Some s'" and rely: "owner_fields_kept E node"
  shows "relocked E node x s'"
proof (cases "shared (nd x node) \<noteq> 0")
  case True
  let ?x = "a_fetch_add (C_waiters (cond (nd x node))) (- 1) x"
  let ?s2 = "if fst ?x = - 2147483647 then wake (C_waiters (cond (nd x node))) 1 0 (snd ?x)
             else snd ?x"
  have c: "calm node x ?s2" by (simp add: calm_intros)
  then have m: "mutex (nd x node) = mutex (nd ?s2 node)" by (simp add: calm_def own_def)
  from run True have "s' = set_mutex_ret node (fst (pthread_mutex_lock E (mutex (nd x node)) ?s2))
      (snd (pthread_mutex_lock E (mutex (nd x node)) ?s2))"
    by (simp add: unwait_def Let_def)
  then have "relocked E node ?s2 s'"
    using relocked_mutex_lock [OF rely m] by simp
  with c show ?thesis by (rule calm_relocked)
next
  case False
  let ?x = "a_cas (W_state node) WAITING LEAVING x"
  from run False obtain s2 where
    s2: "(if fst ?x = WAITING then unwait_leave E node (snd ?x) else Some (snd ?x)) = Some s2"
    and rest: "(let y = pthread_mutex_lock E (mutex (nd s2 node)) s2;
                    s4 = set_mutex_ret node (fst y) (snd y)
                in if fst ?x = WAITING then Some s4
                   else if mutex_ret (nd s4 node) \<noteq> 0 \<and> mutex_ret (nd s4 node) \<noteq> EOWNERDEAD
                   then deadlock E s4
                   else lock E (W_barrier node) s4 \<bind> unwait_requeue E node) = Some s'"
    by (auto simp: unwait_def Let_def bind_eq_Some_conv)
  have c2: "calm node x s2"
  proof (cases "fst ?x = WAITING")
    case True
    with s2 rely have "calm node (snd ?x) s2" by (simp add: calm_unwait_leave)
    then show ?thesis by (rule calm_trans [rotated]) (simp add: calm_intros)
  next
    case False
    with s2 show ?thesis by (auto simp: calm_intros)
  qed
  let ?s4 = "set_mutex_ret node (fst (pthread_mutex_lock E (mutex (nd s2 node)) s2))
               (snd (pthread_mutex_lock E (mutex (nd s2 node)) s2))"
  have r4: "relocked E node x ?s4"
    using c2 relocked_mutex_lock [OF rely refl] by (rule calm_relocked)
  show ?thesis
  proof (cases "fst ?x = WAITING")
    case True
    with rest r4 show ?thesis by (simp add: Let_def)
  next
    case False
    with rest obtain s5 where "lock E (W_barrier node) ?s4 = Some s5"
      and "unwait_requeue E node s5 = Some s'"
      by (auto simp: Let_def bind_eq_Some_conv split: if_splits)
    then have "calm node ?s4 s5" and "calm node s5 s'"
      using rely by (auto intro: calm_lock calm_unwait_requeue)
    then have "calm node ?s4 s'" by (rule calm_trans)
    with r4 show ?thesis by (rule relocked_calm)
  qed
qed

lemma timedwait_cases:
  assumes "timedwait E fut val clock ts node priv x = Some (res, s1)"
  shows "case res of
           TW_Return e \<Rightarrow> timedwait_result E (tick x) = TW_Return e
                           \<and> s1 = suspend E (log (TimedWait fut val clock ts priv) x)
         | TW_Cancel \<Rightarrow> unwait E node (suspend E (log (TimedWait fut val clock ts priv) x)) = Some s1"
  using assms by (auto simp: timedwait_def Let_def split: tw_result.splits)

lemma rd_log [simp]: "rd (log e s) l = rd s l"
  by (cases l) (simp_all add: log_def)

lemma rd_load [simp]: "rd (snd (load l' s)) l = rd s l" "fst (load l' s) = rd s l'"
  by (simp_all add: load_def split: option.split)

lemma wait_loop_mutex:
  assumes run: "wait_loop E fut seq clock ts node x = Some r" and rely: "owner_fields_kept E node"
  shows "case fst r of TW_Return e \<Rightarrow> calm node x (snd r) | TW_Cancel \<Rightarrow> relocked E node x (snd r)"
proof -
  let ?Q = "\<lambda>E node x r. owner_fields_kept E node \<longrightarrow>
      (case fst r of TW_Return e \<Rightarrow> calm node x (snd r) | TW_Cancel \<Rightarrow> relocked E node x (snd r))"
  have "?Q E node x r"
  proof (rule wait_loop.raw_induct
      [where P = "\<lambda>E fut seq clock ts node x r. ?Q E node x r", OF _ run])
    fix f E fut seq clock ts node x r
    assume IH: "\<And>E fut seq clock ts node x y.
                  f E fut seq clock ts node x = Some y \<Longrightarrow> ?Q E node x y"
      and step: "(case timedwait E fut seq clock ts node (if shared (nd x node) = 0 then 1 else 0) x of
          None \<Rightarrow> None
        | Some (TW_Return e, s1) \<Rightarrow>
            (let v = load fut s1
             in if fst v = seq \<and> (e = 0 \<or> e = EINTR)
                then f E fut seq clock ts node (snd v)
                else Some (TW_Return e, snd v))
        | Some (TW_Cancel, s1) \<Rightarrow> Some (TW_Cancel, s1)) = Some r"
    let ?priv = "if shared (nd x node) = 0 then 1 else (0::int)"
    let ?x1 = "suspend E (log (TimedWait fut seq clock ts ?priv) x)"
    show "?Q E node x r"
    proof
      assume rely: "owner_fields_kept E node"
      from step obtain res s1 where
        tw: "timedwait E fut seq clock ts node ?priv x = Some (res, s1)"
        by (auto split: option.splits)
      have c1: "calm node x ?x1" using rely by (simp add: calm_intros)
      show "case fst r of TW_Return e \<Rightarrow> calm node x (snd r)
            | TW_Cancel \<Rightarrow> relocked E node x (snd r)"
      proof (cases res)
        case TW_Cancel
        with timedwait_cases [OF tw] have "unwait E node ?x1 = Some s1" by simp
        then have "relocked E node ?x1 s1" using rely by (rule relocked_unwait)
        with c1 have "relocked E node x s1" by (rule calm_relocked)
        with step tw TW_Cancel show ?thesis by auto
      next
        case (TW_Return e)
        with timedwait_cases [OF tw] have s1: "s1 = ?x1" by simp
        have c2: "calm node x (snd (load fut s1))"
          unfolding s1 using rely by (simp add: calm_intros)
        show ?thesis
        proof (cases "fst (load fut s1) = seq \<and> (e = 0 \<or> e = EINTR)")
          case True
          with step tw TW_Return have "f E fut seq clock ts node (snd (load fut s1)) = Some r"
            by (simp add: Let_def)
          from IH [OF this] rely
          have "case fst r of TW_Return e \<Rightarrow> calm node (snd (load fut s1)) (snd r)
                | TW_Cancel \<Rightarrow> relocked E node (snd (load fut s1)) (snd r)"
            by blast
          with c2 show ?thesis
            by (auto split: tw_result.splits intro: calm_trans calm_relocked)
        next
          case False
          with step tw TW_Return c2 show ?thesis by (auto simp: Let_def)
        qed
      qed
    qed
  qed
  with rely show ?thesis by blast
qed

lemma wait_loop_exit:
  assumes run: "wait_loop E fut seq clock ts node x = Some r"
  shows "case fst r of
           TW_Return e \<Rightarrow> (rd (snd r) fut \<noteq> seq \<or> (e \<noteq> 0 \<and> e \<noteq> EINTR))
                           \<and> (\<exists>k. timedwait_result E k = TW_Return e)
         | TW_Cancel \<Rightarrow> True"
proof (rule wait_loop.raw_induct
    [where P = "\<lambda>E fut seq clock ts node x r. case fst r of
           TW_Return e \<Rightarrow> (rd (snd r) fut \<noteq> seq \<or> (e \<noteq> 0 \<and> e \<noteq> EINTR))
                           \<and> (\<exists>k. timedwait_result E k = TW_Return e)
         | TW_Cancel \<Rightarrow> True", OF _ run])
  fix f E fut seq clock ts node x r
  assume IH: "\<And>E fut seq clock ts node x y.
                f E fut seq clock ts node x = Some y \<Longrightarrow>
                (case fst y of
                   TW_Return e \<Rightarrow> (rd (snd y) fut \<noteq> seq \<or> (e \<noteq> 0 \<and> e \<noteq> EINTR))
                                   \<and> (\<exists>k. timedwait_result E k = TW_Return e)
                 | TW_Cancel \<Rightarrow> True)"
    and step: "(case timedwait E fut seq clock ts node (if shared (nd x node) = 0 then 1 else 0) x of
        None \<Rightarrow> None
      | Some (TW_Return e, s1) \<Rightarrow>
          (let v = load fut s1
           in if fst v = seq \<and> (e = 0 \<or> e = EINTR)
              then f E fut seq clock ts node (snd v)
              else Some (TW_Return e, snd v))
      | Some (TW_Cancel, s1) \<Rightarrow> Some (TW_Cancel, s1)) = Some r"
  let ?priv = "if shared (nd x node) = 0 then 1 else (0::int)"
  from step obtain res s1 where tw: "timedwait E fut seq clock ts node ?priv x = Some (res, s1)"
    by (auto split: option.splits)
  show "case fst r of
           TW_Return e \<Rightarrow> (rd (snd r) fut \<noteq> seq \<or> (e \<noteq> 0 \<and> e \<noteq> EINTR))
                           \<and> (\<exists>k. timedwait_result E k = TW_Return e)
         | TW_Cancel \<Rightarrow> True"
  proof (cases res)
    case TW_Cancel
    with step tw show ?thesis by auto
  next
    case (TW_Return e)
    with timedwait_cases [OF tw] have k: "timedwait_result E (tick x) = TW_Return e" by simp
    show ?thesis
    proof (cases "fst (load fut s1) = seq \<and> (e = 0 \<or> e = EINTR)")
      case True
      with step tw TW_Return have "f E fut seq clock ts node (snd (load fut s1)) = Some r"
        by (simp add: Let_def)
      then show ?thesis by (rule IH)
    next
      case False
      with step tw TW_Return have "r = (TW_Return e, snd (load fut s1))"
        by (auto simp: Let_def)
      with False k show ?thesis by auto
    qed
  qed
qed

lemma calm_register_shared: "calm node x (snd (snd (register_shared c node x)))"
  by (simp add: register_shared_def Let_def calm_intros)

lemma calm_register_private:
  assumes "register_private E c node x = Some reg" and rely: "owner_fields_kept E node"
  shows "calm node x (snd (snd reg))"
proof -
  from assms(1) obtain s1 where l: "lock E (C_lock c) x = Some s1"
    and reg: "snd (snd reg) = unlock (C_lock c)
       (let s2 = upd_node node (\<lambda>x. x\<lparr>barrier := 1\<rparr>) s1;
            s3 = upd_node node (\<lambda>x. x\<lparr>state := WAITING\<rparr>) s2;
            s4 = log (CvLoad c F_head) s3;
            s5 = upd_node node (\<lambda>x. x\<lparr>next := c_head (conds s4 c)\<rparr>) s4;
            s6 = log (CvStore c F_head) (upd_cond c (\<lambda>x. x\<lparr>c_head := node\<rparr>) s5);
            s7 = log (CvLoad c F_tail) s6
        in if c_tail (conds s7 c) = 0
           then log (CvStore c F_tail) (upd_cond c (\<lambda>x. x\<lparr>c_tail := node\<rparr>) s7)
           else upd_node (next (nd s7 node)) (\<lambda>x. x\<lparr>prev := node\<rparr>) s7)"
    by (auto simp: register_private_def Let_def bind_eq_Some_conv)
  have "calm node x s1" using l rely by (rule calm_lock)
  then show ?thesis unfolding reg by (simp add: Let_def calm_intros)
qed

subsection \<open>The way through \<open>pthread_cond_timedwait\<close>\<close>

lemma past_checks_simps [simp]:
  "conds (past_checks E c m node s) = conds s"
  "mutexes (past_checks E c m node s) = mutexes s"
  "trace (past_checks E c m node s) = trace s @ [CvLoad c F_clock, TestCancel, CvLoad c F_shared]"
  "own node (past_checks E c m node s) = (m, 0)"
  by (simp_all add: past_checks_def own_def new_node_def state_defs atomic_defs)

lemma timedwait_main_path:
  assumes own: "\<not> (m_type (mutexes s m) AND 15 \<noteq> 0 \<and> m_lock (mutexes s m) AND INT_MAX \<noteq> self)"
    and dl: "\<not> (case ts of None \<Rightarrow> False | Some t \<Rightarrow> 1000000000 \<le> tv_nsec t)"
    and nc: "\<not> cancel_pending E (tick s)"
    and run: "pthread_cond_timedwait E self c m ts node s = Some (out, s')"
  shows "\<exists>reg r.
      (if c_shared (conds s c) \<noteq> 0 then Some (register_shared c node (past_checks E c m node s))
       else register_private E c node (past_checks E c m node s)) = Some reg
    \<and> wait_loop E (fst reg) (fst (snd reg)) (c_clock (conds s c)) ts node
           (pthread_mutex_unlock m (snd (snd reg))) = Some r
    \<and> wait_finish E node r = Some (out, s')"
proof -
  let ?s1 = "log (CvLoad c F_clock) (upd_node node (\<lambda>_. new_node c m) s)"
  have tc: "\<not> fst (pthread_testcancel E ?s1)"
    using nc by (simp add: pthread_testcancel_def state_defs)
  have c1: "conds ?s1 = conds s" "mutexes ?s1 = mutexes s"
    "conds (log (CvLoad c F_shared) (snd (pthread_testcancel E ?s1))) = conds s"
    by (simp_all add: state_defs pthread_testcancel_def)
  from run own dl tc show ?thesis
    unfolding pthread_cond_timedwait_def past_checks_def Let_def c1
    by (auto simp: bind_eq_Some_conv split: if_splits)
qed

lemma timedwait_cancelled_at_test:
  assumes own: "\<not> (m_type (mutexes s m) AND 15 \<noteq> 0 \<and> m_lock (mutexes s m) AND INT_MAX \<noteq> self)"
    and dl: "\<not> (case ts of None \<Rightarrow> False | Some t \<Rightarrow> 1000000000 \<le> tv_nsec t)"
    and pc: "cancel_pending E (tick s)"
  shows "pthread_cond_timedwait E self c m ts node s =
           Some (Cancelled, snd (pthread_testcancel E
              (log (CvLoad c F_clock) (upd_node node (\<lambda>_. new_node c m) s))))"
  using assms by (simp add: pthread_cond_timedwait_def Let_def pthread_testcancel_def state_defs)

lemma wait_finish_relocked:
  assumes fin: "wait_finish E node r = Some (out, s')" and rely: "owner_fields_kept E node"
    and before: "case fst r of TW_Return e \<Rightarrow> calm node x (snd r)
                 | TW_Cancel \<Rightarrow> relocked E node x (snd r)"
  shows "relocked E node x s'"
proof (cases "fst r")
  case TW_Cancel
  with fin before show ?thesis by (simp add: wait_finish_def)
next
  case (TW_Return e)
  with fin have "unwait E node (snd r) = Some s'"
    by (auto simp: wait_finish_def bind_eq_Some_conv)
  then have "relocked E node (snd r) s'" using rely by (rule relocked_unwait)
  with before TW_Return show ?thesis by (auto intro: calm_relocked)
qed

text \<open>
  Claim C1, as stated, fails in its last part: when the reacquisition of the mutex fails
  (here with \<open>ENOTRECOVERABLE\<close>), the call returns that code and the thread does not hold
  the mutex.
\<close>

theorem C1_counterexample:
  "map_option fst (pthread_cond_timedwait env_lock_fails 5 1 1 None 7 st0)
     = Some (Returned ENOTRECOVERABLE)
   \<and> map_option (mutex_events \<circ> trace \<circ> snd) (pthread_cond_timedwait env_lock_fails 5 1 1 None 7 st0)
     = Some [MutexUnlock 1, MutexLock 1 ENOTRECOVERABLE]
   \<and> map_option (holds_after 1 True \<circ> trace \<circ> snd)
       (pthread_cond_timedwait env_lock_fails 5 1 1 None 7 st0) = Some False"
  by code_simp

text \<open>
  Claim C1, amended: for every call that passes the precondition checks, every exit after
  the cancellation point of line 150 \<emdash> normal wake, timeout, benign interrupt, or
  cancellation cleanup \<emdash> has released the mutex once and has then reached \<open>unwait\<close>,
  which calls the lock operation on the associated mutex, once, and records its result in
  \<open>node.mutex_ret\<close>, on both the process-shared and the private path.  At the exit the
  calling thread holds the mutex if and only if that result is 0 or \<open>OWNER_DEAD\<close>.  (A
  thread cancelled at line 150 has not released the mutex.)
\<close>

theorem C1_mutex_relocked_on_exit:
  assumes rely: "owner_fields_kept E node"
    and own: "\<not> (m_type (mutexes s m) AND 15 \<noteq> 0 \<and> m_lock (mutexes s m) AND INT_MAX \<noteq> self)"
    and dl: "\<not> (case ts of None \<Rightarrow> False | Some t \<Rightarrow> 1000000000 \<le> tv_nsec t)"
    and run: "pthread_cond_timedwait E self c m ts node s = Some (out, s')"
  shows "if cancel_pending E (tick s)
         then out = Cancelled \<and> mutex_events (trace s') = mutex_events (trace s)
         else (\<exists>k. mutex_events (trace s') =
                      mutex_events (trace s) @ [MutexUnlock m, MutexLock m (mutex_lock_result E k)]
                 \<and> mutex_ret (nd s' node) = mutex_lock_result E k
                 \<and> (holds_after m h (trace s')
                      \<longleftrightarrow> mutex_lock_result E k = 0 \<or> mutex_lock_result E k = EOWNERDEAD))"
proof (cases "cancel_pending E (tick s)")
  case True
  with run timedwait_cancelled_at_test [OF own dl True, of c node] show ?thesis
    by (auto simp: atomic_defs)
next
  case False
  let ?s3 = "past_checks E c m node s"
  from timedwait_main_path [OF own dl False run] obtain reg r where
    reg: "(if c_shared (conds s c) \<noteq> 0 then Some (register_shared c node ?s3)
           else register_private E c node ?s3) = Some reg"
    and wl: "wait_loop E (fst reg) (fst (snd reg)) (c_clock (conds s c)) ts node
               (pthread_mutex_unlock m (snd (snd reg))) = Some r"
    and fin: "wait_finish E node r = Some (out, s')"
    by blast
  let ?s4 = "snd (snd reg)"
  let ?s5 = "pthread_mutex_unlock m ?s4"
  have c4: "calm node ?s3 ?s4"
  proof (cases "c_shared (conds s c) \<noteq> 0")
    case True
    with reg show ?thesis by (auto simp: calm_register_shared)
  next
    case False
    with reg rely show ?thesis by (auto intro: calm_register_private)
  qed
  have "own node ?s4 = (m, 0)" using c4 by (simp add: calm_def)
  then have o5: "own node ?s5 = (m, 0)"
    by (simp add: pthread_mutex_unlock_def own_def state_defs)
  have t5: "mutex_events (trace ?s5) = mutex_events (trace s) @ [MutexUnlock m]"
    using c4 by (simp add: calm_def pthread_mutex_unlock_def)
  have "relocked E node ?s5 s'"
    using fin rely wait_loop_mutex [OF wl rely] by (rule wait_finish_relocked)
  then obtain k where
    "mutex_events (trace s') =
       mutex_events (trace s) @ [MutexUnlock m, MutexLock m (mutex_lock_result E k)]"
    and "mutex_ret (nd s' node) = mutex_lock_result E k"
    using o5 t5 by (auto simp: relocked_def own_def)
  with False holds_after_relock [of "trace s'" "trace s" m "mutex_lock_result E k" h]
  show ?thesis by auto
qed

theorem C1_witness:
  "\<exists>s' k. pthread_cond_timedwait env_signal 5 1 1 None 7 st0 = Some (Returned 0, s')
     \<and> mutex_events (trace s') = [MutexUnlock 1, MutexLock 1 (mutex_lock_result env_signal k)]
     \<and> mutex_ret (nd s' 7) = mutex_lock_result env_signal k
     \<and> holds_after 1 True (trace s')"
proof -
  have "map_option fst (pthread_cond_timedwait env_signal 5 1 1 None 7 st0) = Some (Returned 0)"
    by code_simp
  then obtain s' where
    run: "pthread_cond_timedwait env_signal 5 1 1 None 7 st0 = Some (Returned 0, s')"
    by auto
  have "owner_fields_kept env_signal 7"
    and "\<not> (m_type (mutexes st0 1) AND 15 \<noteq> 0 \<and> m_lock (mutexes st0 1) AND INT_MAX \<noteq> 5)"
    and "\<not> (case None :: timespec option of None \<Rightarrow> False | Some t \<Rightarrow> 1000000000 \<le> tv_nsec t)"
    by (simp_all add: owner_fields_kept_def env_signal_def fixture_defs state_defs)
  from C1_mutex_relocked_on_exit [OF this run, of True] run show ?thesis
    by (auto simp: env_signal_def fixture_defs const_defs)
qed

subsection \<open>The wait loop and the returned code\<close>

lemma wait_loop_retry:
  assumes "timedwait E fut seq clock ts node (if shared (nd x node) = 0 then 1 else 0) x
             = Some (TW_Return e, s1)"
  shows "wait_loop E fut seq clock ts node x =
           (if rd s1 fut = seq \<and> (e = 0 \<or> e = EINTR)
            then wait_loop E fut seq clock ts node (snd (load fut s1))
            else Some (TW_Return e, snd (load fut s1)))"
  using assms by (subst wait_loop.simps) (simp add: Let_def)

lemma rd_suspend: "rd (suspend E y) l = rd (interfere E (tick y) y) l"
  by (cases l) (simp_all add: suspend_def Let_def)

text \<open>The loop does retry: as long as every wait returns 0 or \<open>EINTR\<close> and nobody changes
  the watched word, it goes on waiting, so it never returns.\<close>

lemma wait_loop_retries_forever:
  assumes res: "\<And>k. timedwait_result E k = TW_Return 0 \<or> timedwait_result E k = TW_Return EINTR"
    and keep: "\<And>k h. rd (interfere E k h) fut = rd h fut"
    and eq: "rd x fut = seq"
  shows "wait_loop E fut seq clock ts node x = None"
proof (cases "wait_loop E fut seq clock ts node x")
  case None
  then show ?thesis .
next
  case (Some r)
  let ?P = "\<lambda>E' fut' seq' (clock :: int) (ts :: timespec option) (node :: addr) x
              (r :: tw_result \<times> st). E' = E \<and> fut' = fut \<and> seq' = seq \<longrightarrow> rd x fut \<noteq> seq"
  have "?P E fut seq clock ts node x r"
  proof (rule wait_loop.raw_induct [where P = ?P, OF _ Some])
    fix f E' fut' seq' clock ts node x r
    assume IH: "\<And>E' fut' seq' clock ts node x y.
                  f E' fut' seq' clock ts node x = Some y \<Longrightarrow> ?P E' fut' seq' clock ts node x y"
      and step: "(case timedwait E' fut' seq' clock ts node
                        (if shared (nd x node) = 0 then 1 else 0) x of
          None \<Rightarrow> None
        | Some (TW_Return e, s1) \<Rightarrow>
            (let v = load fut' s1
             in if fst v = seq' \<and> (e = 0 \<or> e = EINTR)
                then f E' fut' seq' clock ts node (snd v)
                else Some (TW_Return e, snd v))
        | Some (TW_Cancel, s1) \<Rightarrow> Some (TW_Cancel, s1)) = Some r"
    show "?P E' fut' seq' clock ts node x r"
    proof (intro impI notI)
      assume a: "E' = E \<and> fut' = fut \<and> seq' = seq" and xs: "rd x fut = seq"
      let ?priv = "if shared (nd x node) = 0 then 1 else (0::int)"
      let ?s1 = "suspend E (log (TimedWait fut seq clock ts ?priv) x)"
      from res [of "tick x"] obtain e where
        e: "timedwait_result E (tick x) = TW_Return e" and e0: "e = 0 \<or> e = EINTR"
        by auto
      have tw: "timedwait E fut seq clock ts node ?priv x = Some (TW_Return e, ?s1)"
        using e by (simp add: timedwait_def Let_def)
      have w1: "rd ?s1 fut = seq"
        using xs by (simp add: rd_suspend keep)
      from step a tw w1 e0 have "f E fut seq clock ts node (snd (load fut ?s1)) = Some r"
        by (simp add: Let_def)
      from IH [OF this] have "rd (snd (load fut ?s1)) fut \<noteq> seq" by simp
      with w1 show False by simp
    qed
  qed
  with eq show ?thesis by simp
qed

text \<open>What the call does to the mutex when it gets past the cancellation point: one unlock,
  then one lock whose result is stored in the node.\<close>

lemma timedwait_relocks:
  assumes rely: "owner_fields_kept E node"
    and own: "\<not> (m_type (mutexes s m) AND 15 \<noteq> 0 \<and> m_lock (mutexes s m) AND INT_MAX \<noteq> self)"
    and dl: "\<not> (case ts of None \<Rightarrow> False | Some t \<Rightarrow> 1000000000 \<le> tv_nsec t)"
    and nc: "\<not> cancel_pending E (tick s)"
    and run: "pthread_cond_timedwait E self c m ts node s = Some (out, s')"
  shows "\<exists>k. mutex_events (trace s') =
               mutex_events (trace s) @ [MutexUnlock m, MutexLock m (mutex_lock_result E k)]
            \<and> mutex_ret (nd s' node) = mutex_lock_result E k"
proof -
  let ?s3 = "past_checks E c m node s"
  from timedwait_main_path [OF own dl nc run] obtain reg r where
    reg: "(if c_shared (conds s c) \<noteq> 0 then Some (register_shared c node ?s3)
           else register_private E c node ?s3) = Some reg"
    and wl: "wait_loop E (fst reg) (fst (snd reg)) (c_clock (conds s c)) ts node
               (pthread_mutex_unlock m (snd (snd reg))) = Some r"
    and fin: "wait_finish E node r = Some (out, s')"
    by blast
  let ?s4 = "snd (snd reg)"
  let ?s5 = "pthread_mutex_unlock m ?s4"
  have c4: "calm node ?s3 ?s4"
  proof (cases "c_shared (conds s c) \<noteq> 0")
    case True
    with reg show ?thesis by (auto simp: calm_register_shared)
  next
    case False
    with reg rely show ?thesis by (auto intro: calm_register_private)
  qed
  have "own node ?s4 = (m, 0)" using c4 by (simp add: calm_def)
  then have o5: "own node ?s5 = (m, 0)"
    by (simp add: pthread_mutex_unlock_def own_def state_defs)
  have t5: "mutex_events (trace ?s5) = mutex_events (trace s) @ [MutexUnlock m]"
    using c4 by (simp add: calm_def pthread_mutex_unlock_def)
  have "relocked E node ?s5 s'"
    using fin rely wait_loop_mutex [OF wl rely] by (rule wait_finish_relocked)
  then show ?thesis
    using o5 t5 by (auto simp: relocked_def own_def)
qed

text \<open>
  Claim C2.  The main loop waits again as long as the watched word still equals the
  registered value and the wait result is success or \<open>EINTR\<close>: this is the equation of the
  first part, for every state \<open>x\<close> of the loop, and the second part shows that the loop
  really goes on, without an end if every wait returns 0 or \<open>EINTR\<close> and the word stays as
  it is.  When the call returns \<open>r\<close>, the loop, started on the futex word and value that
  this call registered and in the store the call left when it unlocked the mutex, has
  ended with a code \<open>e\<close> for which the loop condition is false; a final \<open>EINTR\<close> is turned
  into 0; and \<open>r\<close> is \<open>node.mutex_ret\<close> when that is non-zero and the wait-outcome code
  otherwise, where \<open>node.mutex_ret\<close> is the code that the one lock operation on the mutex
  returned (the other threads do not write the owner's fields of the node).  The
  wait-outcome code is 0 or \<open>ETIMEDOUT\<close> (the futex wait returns 0, \<open>ETIMEDOUT\<close> or
  \<open>EINTR\<close>), and the caller does not see \<open>EINTR\<close> (the mutex lock operation never returns
  it).
\<close>

theorem C2_loop_and_return_code:
  assumes own: "\<not> (m_type (mutexes s m) AND 15 \<noteq> 0 \<and> m_lock (mutexes s m) AND INT_MAX \<noteq> self)"
    and dl: "\<not> (case ts of None \<Rightarrow> False | Some t \<Rightarrow> 1000000000 \<le> tv_nsec t)"
    and run: "pthread_cond_timedwait E self c m ts node s = Some (Returned r, s')"
  shows "(\<forall>fut seq clock x e s1.
            timedwait E fut seq clock ts node (if shared (nd x node) = 0 then 1 else 0) x
              = Some (TW_Return e, s1) \<longrightarrow>
            wait_loop E fut seq clock ts node x =
              (if rd s1 fut = seq \<and> (e = 0 \<or> e = EINTR)
               then wait_loop E fut seq clock ts node (snd (load fut s1))
               else Some (TW_Return e, snd (load fut s1))))
       \<and> (\<forall>fut seq clock x.
            (\<forall>k. timedwait_result E k = TW_Return 0 \<or> timedwait_result E k = TW_Return EINTR)
            \<and> (\<forall>k h. rd (interfere E k h) fut = rd h fut) \<and> rd x fut = seq \<longrightarrow>
            wait_loop E fut seq clock ts node x = None)
       \<and> (\<exists>reg e s6.
            (if c_shared (conds s c) \<noteq> 0
             then Some (register_shared c node (past_checks E c m node s))
             else register_private E c node (past_checks E c m node s)) = Some reg
          \<and> wait_loop E (fst reg) (fst (snd reg)) (c_clock (conds s c)) ts node
               (pthread_mutex_unlock m (snd (snd reg))) = Some (TW_Return e, s6)
          \<and> (rd s6 (fst reg) \<noteq> fst (snd reg) \<or> (e \<noteq> 0 \<and> e \<noteq> EINTR))
          \<and> unwait E node s6 = Some s'
          \<and> r = (if mutex_ret (nd s' node) \<noteq> 0 then mutex_ret (nd s' node)
                 else if e = EINTR then 0 else e)
          \<and> ((\<forall>k e. timedwait_result E k = TW_Return e \<longrightarrow> e = 0 \<or> e = ETIMEDOUT \<or> e = EINTR)
               \<longrightarrow> (if e = EINTR then 0 else e) = 0 \<or> (if e = EINTR then 0 else e) = ETIMEDOUT)
          \<and> (owner_fields_kept E node \<longrightarrow>
               (\<exists>k. mutex_events (trace s') =
                       mutex_events (trace s) @ [MutexUnlock m, MutexLock m (mutex_lock_result E k)]
                    \<and> mutex_ret (nd s' node) = mutex_lock_result E k
                    \<and> r = (if mutex_lock_result E k \<noteq> 0 then mutex_lock_result E k
                           else if e = EINTR then 0 else e))))
       \<and> (owner_fields_kept E node \<and> (\<forall>k. mutex_lock_result E k \<noteq> EINTR) \<longrightarrow> r \<noteq> EINTR)"
proof -
  have nc: "\<not> cancel_pending E (tick s)"
  proof
    assume "cancel_pending E (tick s)"
    from timedwait_cancelled_at_test [OF own dl this] run show False by simp
  qed
  from timedwait_main_path [OF own dl nc run] obtain reg w where
    reg: "(if c_shared (conds s c) \<noteq> 0
           then Some (register_shared c node (past_checks E c m node s))
           else register_private E c node (past_checks E c m node s)) = Some reg"
    and wl: "wait_loop E (fst reg) (fst (snd reg)) (c_clock (conds s c)) ts node
               (pthread_mutex_unlock m (snd (snd reg))) = Some w"
    and fin: "wait_finish E node w = Some (Returned r, s')"
    by blast
  from fin obtain e where e: "fst w = TW_Return e"
    by (cases "fst w") (auto simp: wait_finish_def)
  then have w: "w = (TW_Return e, snd w)" by (cases w) simp
  from fin e have uw: "unwait E node (snd w) = Some s'"
    and r: "r = (if mutex_ret (nd s' node) \<noteq> 0 then mutex_ret (nd s' node)
                 else if e = EINTR then 0 else e)"
    by (auto simp: wait_finish_def bind_eq_Some_conv)
  from wait_loop_exit [OF wl] e
  have ex: "rd (snd w) (fst reg) \<noteq> fst (snd reg) \<or> (e \<noteq> 0 \<and> e \<noteq> EINTR)"
    and k: "\<exists>k. timedwait_result E k = TW_Return e"
    by simp_all
  have contract: "(\<forall>k e. timedwait_result E k = TW_Return e \<longrightarrow> e = 0 \<or> e = ETIMEDOUT \<or> e = EINTR)
      \<longrightarrow> (if e = EINTR then 0 else e) = 0 \<or> (if e = EINTR then 0 else e) = ETIMEDOUT"
    using k by auto
  have link: "owner_fields_kept E node \<longrightarrow>
               (\<exists>k. mutex_events (trace s') =
                       mutex_events (trace s) @ [MutexUnlock m, MutexLock m (mutex_lock_result E k)]
                    \<and> mutex_ret (nd s' node) = mutex_lock_result E k
                    \<and> r = (if mutex_lock_result E k \<noteq> 0 then mutex_lock_result E k
                           else if e = EINTR then 0 else e))"
  proof
    assume rely: "owner_fields_kept E node"
    from timedwait_relocks [OF rely own dl nc run] obtain k where
      "mutex_events (trace s') =
         mutex_events (trace s) @ [MutexUnlock m, MutexLock m (mutex_lock_result E k)]"
      and "mutex_ret (nd s' node) = mutex_lock_result E k"
      by blast
    with r show "\<exists>k. mutex_events (trace s') =
                       mutex_events (trace s) @ [MutexUnlock m, MutexLock m (mutex_lock_result E k)]
                    \<and> mutex_ret (nd s' node) = mutex_lock_result E k
                    \<and> r = (if mutex_lock_result E k \<noteq> 0 then mutex_lock_result E k
                           else if e = EINTR then 0 else e)"
      by (intro exI [of _ k]) simp
  qed
  have no_eintr: "owner_fields_kept E node \<and> (\<forall>k. mutex_lock_result E k \<noteq> EINTR) \<longrightarrow> r \<noteq> EINTR"
  proof
    assume a: "owner_fields_kept E node \<and> (\<forall>k. mutex_lock_result E k \<noteq> EINTR)"
    with link obtain k where "r = (if mutex_lock_result E k \<noteq> 0 then mutex_lock_result E k
                           else if e = EINTR then 0 else e)"
      by blast
    with a show "r \<noteq> EINTR" by (auto simp: EINTR_def split: if_splits)
  qed
  have ret: "\<exists>reg e s6.
            (if c_shared (conds s c) \<noteq> 0
             then Some (register_shared c node (past_checks E c m node s))
             else register_private E c node (past_checks E c m node s)) = Some reg
          \<and> wait_loop E (fst reg) (fst (snd reg)) (c_clock (conds s c)) ts node
               (pthread_mutex_unlock m (snd (snd reg))) = Some (TW_Return e, s6)
          \<and> (rd s6 (fst reg) \<noteq> fst (snd reg) \<or> (e \<noteq> 0 \<and> e \<noteq> EINTR))
          \<and> unwait E node s6 = Some s'
          \<and> r = (if mutex_ret (nd s' node) \<noteq> 0 then mutex_ret (nd s' node)
                 else if e = EINTR then 0 else e)
          \<and> ((\<forall>k e. timedwait_result E k = TW_Return e \<longrightarrow> e = 0 \<or> e = ETIMEDOUT \<or> e = EINTR)
               \<longrightarrow> (if e = EINTR then 0 else e) = 0 \<or> (if e = EINTR then 0 else e) = ETIMEDOUT)
          \<and> (owner_fields_kept E node \<longrightarrow>
               (\<exists>k. mutex_events (trace s') =
                       mutex_events (trace s) @ [MutexUnlock m, MutexLock m (mutex_lock_result E k)]
                    \<and> mutex_ret (nd s' node) = mutex_lock_result E k
                    \<and> r = (if mutex_lock_result E k \<noteq> 0 then mutex_lock_result E k
                           else if e = EINTR then 0 else e)))"
  proof (intro exI conjI)
    show "(if c_shared (conds s c) \<noteq> 0
           then Some (register_shared c node (past_checks E c m node s))
           else register_private E c node (past_checks E c m node s)) = Some reg"
      by (rule reg)
    show "wait_loop E (fst reg) (fst (snd reg)) (c_clock (conds s c)) ts node
            (pthread_mutex_unlock m (snd (snd reg))) = Some (TW_Return e, snd w)"
      using wl w by simp
  qed (rule ex uw r contract link)+
  have retry: "\<forall>fut seq clock x e s1.
            timedwait E fut seq clock ts node (if shared (nd x node) = 0 then 1 else 0) x
              = Some (TW_Return e, s1) \<longrightarrow>
            wait_loop E fut seq clock ts node x =
              (if rd s1 fut = seq \<and> (e = 0 \<or> e = EINTR)
               then wait_loop E fut seq clock ts node (snd (load fut s1))
               else Some (TW_Return e, snd (load fut s1)))"
    by (intro allI impI) (rule wait_loop_retry)
  have forever: "\<forall>fut seq clock x.
            (\<forall>k. timedwait_result E k = TW_Return 0 \<or> timedwait_result E k = TW_Return EINTR)
            \<and> (\<forall>k h. rd (interfere E k h) fut = rd h fut) \<and> rd x fut = seq \<longrightarrow>
            wait_loop E fut seq clock ts node x = None"
    by (intro allI impI wait_loop_retries_forever) blast+
  from retry forever ret no_eintr show ?thesis by (intro conjI)
qed

theorem C2_witness:
  "\<exists>s'. pthread_cond_timedwait env_eintr 5 1 1 None 7 st0 = Some (Returned 0, s')
     \<and> length (filter is_timedwait (trace s')) = 2 \<and> (0 :: int) \<noteq> EINTR
     \<and> mutex_events (trace s') = [MutexUnlock 1, MutexLock 1 0] \<and> mutex_ret (nd s' 7) = 0
     \<and> wait_loop env_eintr (C_seq 1) 0 0 None 7 st0 = None"
proof -
  have "map_option (\<lambda>x. (fst x, length (filter is_timedwait (trace (snd x)))))
          (pthread_cond_timedwait env_eintr 5 1 1 None 7 st0) = Some (Returned 0, 2)"
    by code_simp
  then obtain s' where
    run: "pthread_cond_timedwait env_eintr 5 1 1 None 7 st0 = Some (Returned 0, s')"
    and two: "length (filter is_timedwait (trace s')) = 2"
    by auto
  have own: "\<not> (m_type (mutexes st0 1) AND 15 \<noteq> 0 \<and> m_lock (mutexes st0 1) AND INT_MAX \<noteq> 5)"
    and dl: "\<not> (case None :: timespec option of None \<Rightarrow> False | Some t \<Rightarrow> 1000000000 \<le> tv_nsec t)"
    by (simp_all add: fixture_defs)
  have rely: "owner_fields_kept env_eintr 7 \<and> (\<forall>k. mutex_lock_result env_eintr k \<noteq> EINTR)"
    by (simp add: owner_fields_kept_def env_eintr_def fixture_defs state_defs const_defs)
  note C2 = C2_loop_and_return_code [OF own dl run]
  from C2 rely have ne: "(0 :: int) \<noteq> EINTR" by blast
  from C2 rely obtain k where
    "mutex_events (trace s') =
       mutex_events (trace st0) @ [MutexUnlock 1, MutexLock 1 (mutex_lock_result env_eintr k)]"
    and "mutex_ret (nd s' 7) = mutex_lock_result env_eintr k"
    by blast
  then have "mutex_events (trace s') = [MutexUnlock 1, MutexLock 1 0]"
    and "mutex_ret (nd s' 7) = 0"
    by (simp_all add: env_eintr_def fixture_defs)
  moreover have "(\<forall>k. timedwait_result env_eintr k = TW_Return 0
                     \<or> timedwait_result env_eintr k = TW_Return EINTR)
                \<and> (\<forall>k h. rd (interfere env_eintr k h) (C_seq 1) = rd h (C_seq 1))
                \<and> rd st0 (C_seq 1) = 0"
    by (simp add: env_eintr_def fixture_defs state_defs)
  with C2 have "wait_loop env_eintr (C_seq 1) 0 0 None 7 st0 = None" by blast
  ultimately show ?thesis using run two ne by blast
qed

subsection \<open>Waiter lists in the store\<close>

lemma hd0_simps [simp]: "hd0 [] = 0" "hd0 (x # xs) = x"
  by (simp_all add: hd0_def)

lemma last0_simps [simp]: "last0 [] = 0" "last0 (xs @ [x]) = x"
  by (simp_all add: last0_def)

lemma dll_frame:
  assumes "\<And>x. x \<in> set ws \<Longrightarrow> next (W' x) = next (W x) \<and> prev (W' x) = prev (W x)"
  shows "dll W' nx ws = dll W nx ws"
  using assms by (induction ws arbitrary: nx) auto

lemma dll_nonzero: "dll W nx ws \<Longrightarrow> 0 \<notin> set ws"
  by (induction ws arbitrary: nx) auto

lemma dll_hd0_prev:
  "dll W nx (x # xs) \<Longrightarrow> prev (W x) = hd0 xs"
  by (cases xs) auto

lemma state_wakes_simps [simp]:
  "state_wakes [] = []" "state_wakes (xs @ ys) = state_wakes xs @ state_wakes ys"
  "state_wakes (e # xs) = woken e @ state_wakes xs"
  by (simp_all add: state_wakes_def)

subsection \<open>The walk of the signaler\<close>

lemma walked_Nil [simp]: "walked r [] s = s"
  by (simp add: walked_def)

lemma walk_len_le: "walk_len st n ws \<le> length ws"
  by (induction ws arbitrary: n) auto

lemma walk_len_cong:
  "(\<And>y. y \<in> set ws \<Longrightarrow> st y = st' y) \<Longrightarrow> walk_len st n ws = walk_len st' n ws"
  by (induction ws arbitrary: n) auto

lemma walked_Cons_waiting:
  assumes "x \<notin> set vs" and "state (waiters s x) = WAITING"
  shows "walked r (x # vs) s = walked r vs (wr (W_state x) SIGNALED s)"
proof -
  have f: "filter (\<lambda>y. state (if y = x then (waiters s x)\<lparr>state := SIGNALED\<rparr> else waiters s y)
                      \<noteq> WAITING) vs
         = filter (\<lambda>y. state (waiters s y) \<noteq> WAITING) vs"
    using assms(1) by (intro filter_cong) auto
  show ?thesis
    using assms by (auto simp: walked_def upd_node_def fun_eq_iff f cong: if_cong)
qed

lemma walked_Cons_leaving:
  assumes "x \<notin> set vs" and "state (waiters s x) \<noteq> WAITING"
  shows "walked r (x # vs) s =
         walked r vs (upd_node x (\<lambda>w. w\<lparr>notify := Some (Local r)\<rparr>)
                        (wr (Local r) (rd s (Local r) + 1) s))"
proof -
  have f: "filter (\<lambda>y. state (if y = x then (waiters s x)\<lparr>notify := Some (Local r)\<rparr>
                                else waiters s y) \<noteq> WAITING) vs
         = filter (\<lambda>y. state (waiters s y) \<noteq> WAITING) vs"
    using assms(1) by (intro filter_cong) auto
  show ?thesis
    using assms by (auto simp: walked_def upd_node_def fun_eq_iff f cong: if_cong)
qed

lemma signal_walk_dll:
  assumes "dll (waiters s) nx ws" and "distinct ws"
  shows "signal_walk r (hd0 ws) n q s =
           Some (hd0 (drop (walk_len (\<lambda>x. state (waiters s x)) n ws) ws),
                 (if q \<noteq> 0 then q
                  else hd0 (filter (\<lambda>x. state (waiters s x) = WAITING)
                              (take (walk_len (\<lambda>x. state (waiters s x)) n ws) ws))),
                 walked r (take (walk_len (\<lambda>x. state (waiters s x)) n ws) ws) s)"
  using assms
proof (induction ws arbitrary: s nx n q)
  case Nil
  show ?case by (subst signal_walk.simps) simp
next
  case (Cons x xs)
  show ?case
  proof (cases "n = 0")
    case True
    then show ?thesis by (subst signal_walk.simps) simp
  next
    case n: False
    from Cons.prems have x0: "x \<noteq> 0" and px: "prev (waiters s x) = hd0 xs"
      and xs: "dll (waiters s) x xs" and dx: "x \<notin> set xs" and d: "distinct xs"
      by (auto simp: dll_hd0_prev [OF Cons.prems(1)])
    show ?thesis
    proof (cases "state (waiters s x) = WAITING")
      case True
      let ?s1 = "wr (W_state x) SIGNALED s"
      let ?k = "walk_len (\<lambda>y. state (waiters s y)) (n - 1) xs"
      have cas: "a_cas (W_state x) WAITING SIGNALED s = (WAITING, ?s1)"
        using True by (simp add: a_cas_def note_atomic_def)
      have st1: "state (waiters ?s1 y) = state (waiters s y)" if "y \<in> set xs" for y
        using that dx by (auto simp: upd_node_def)
      have dll1: "dll (waiters ?s1) x xs"
        using xs dx by (subst dll_frame [where W = "waiters s"]) (auto simp: upd_node_def)
      have wl: "walk_len (\<lambda>y. state (waiters ?s1 y)) (n - 1) xs = ?k"
        by (rule walk_len_cong) (rule st1)
      have fl: "filter (\<lambda>y. state (waiters ?s1 y) = WAITING) (take ?k xs)
                = filter (\<lambda>y. state (waiters s y) = WAITING) (take ?k xs)"
      proof (rule filter_cong [OF refl])
        fix y
        assume "y \<in> set (take ?k xs)"
        then have "y \<in> set xs" by (rule in_set_takeD)
        then show "(state (waiters ?s1 y) = WAITING) = (state (waiters s y) = WAITING)"
          by (simp only: st1)
      qed
      have step: "signal_walk r x n q s
                    = signal_walk r (hd0 xs) (n - 1) (if q = 0 then x else q) ?s1"
        using n x0 cas px by (subst signal_walk.simps) (simp add: Let_def nd_def upd_node_def)
      have w: "walked r (x # take ?k xs) s = walked r (take ?k xs) ?s1"
        using dx True by (intro walked_Cons_waiting) (auto dest: in_set_takeD)
      show ?thesis
        unfolding hd0_simps step Cons.IH [OF dll1 d] wl fl
        using n True x0 w by simp
    next
      case False
      let ?s1 = "upd_node x (\<lambda>w. w\<lparr>notify := Some (Local r)\<rparr>)
                   (wr (Local r) (rd s (Local r) + 1) s)"
      let ?k = "walk_len (\<lambda>y. state (waiters s y)) n xs"
      have cas: "a_cas (W_state x) WAITING SIGNALED s = (state (waiters s x), s)"
        using False by (simp add: a_cas_def note_atomic_def)
      have st1: "state (waiters ?s1 y) = state (waiters s y)" for y
        by (auto simp: upd_node_def)
      have dll1: "dll (waiters ?s1) x xs"
        using xs by (subst dll_frame [where W = "waiters s"]) (auto simp: upd_node_def)
      have step: "signal_walk r x n q s = signal_walk r (hd0 xs) n q ?s1"
        using n x0 cas px False
        by (subst signal_walk.simps) (simp add: Let_def nd_def upd_node_def)
      have w: "walked r (x # take ?k xs) s = walked r (take ?k xs) ?s1"
        using dx False by (intro walked_Cons_leaving) (auto dest: in_set_takeD)
      show ?thesis
        unfolding hd0_simps step Cons.IH [OF dll1 d] st1
        using n False x0 w by simp
    qed
  qed
qed

subsection \<open>Splitting the list\<close>

lemma dll_dseg: "dll W nx ws = dseg W nx ws 0"
  by (induction ws arbitrary: nx) auto

lemma dseg_frame:
  assumes "\<And>x. x \<in> set ws \<Longrightarrow> next (W' x) = next (W x) \<and> prev (W' x) = prev (W x)"
  shows "dseg W' nx ws pv = dseg W nx ws pv"
  using assms by (induction ws arbitrary: nx) auto

lemma dseg_append:
  "dseg W nx (xs @ ys) pv \<longleftrightarrow>
     dseg W nx xs (case ys of [] \<Rightarrow> pv | y # _ \<Rightarrow> y)
     \<and> dseg W (if xs = [] then nx else last xs) ys pv"
proof (induction xs arbitrary: nx)
  case Nil
  show ?case by simp
next
  case (Cons x xs)
  have IH: "dseg W x (xs @ ys) pv \<longleftrightarrow>
     dseg W x xs (case ys of [] \<Rightarrow> pv | y # _ \<Rightarrow> y)
     \<and> dseg W (if xs = [] then x else last xs) ys pv"
    by (rule Cons.IH)
  show ?case
  proof (cases xs)
    case Nil
    then show ?thesis by (cases ys) simp_all
  next
    case (Cons z zs)
    have "dseg W nx ((x # xs) @ ys) pv \<longleftrightarrow>
            x \<noteq> 0 \<and> next (W x) = nx \<and> prev (W x) = z \<and> dseg W x (xs @ ys) pv"
      unfolding Cons by simp
    also have "\<dots> \<longleftrightarrow> x \<noteq> 0 \<and> next (W x) = nx \<and> prev (W x) = z
        \<and> dseg W x xs (case ys of [] \<Rightarrow> pv | y # _ \<Rightarrow> y)
        \<and> dseg W (last xs) ys pv"
      unfolding IH using Cons by simp
    also have "\<dots> \<longleftrightarrow> dseg W nx (x # xs) (case ys of [] \<Rightarrow> pv | y # _ \<Rightarrow> y)
        \<and> dseg W (if x # xs = [] then nx else last (x # xs)) ys pv"
      unfolding Cons by simp
    finally show ?thesis .
  qed
qed

lemma dseg_set_last_prev:
  assumes "dseg W nx xs pv" and "distinct xs" and "xs \<noteq> []"
  shows "dseg (W(last xs := (W (last xs))\<lparr>prev := pv'\<rparr>)) nx xs pv'"
  using assms
proof (induction xs arbitrary: nx)
  case Nil
  then show ?case by simp
next
  case (Cons x xs)
  show ?case
  proof (cases xs)
    case Nil
    with Cons.prems show ?thesis by simp
  next
    case xs: (Cons y ys)
    let ?W' = "W(last xs := (W (last xs))\<lparr>prev := pv'\<rparr>)"
    from Cons.prems xs have lx: "last xs \<noteq> x" and ne: "xs \<noteq> []" and d: "distinct xs"
      by auto
    from Cons.prems xs have hx: "x \<noteq> 0" "next (W x) = nx" "prev (W x) = y"
      and tl: "dseg W x xs pv"
      by simp_all
    have ih: "dseg ?W' x xs pv'" using tl d ne by (rule Cons.IH)
    have wx: "?W' x = W x" using lx by simp
    have l: "last (x # xs) = last xs" using ne by simp
    have c: "(case xs of [] \<Rightarrow> pv' | z # _ \<Rightarrow> z) = y" using xs by simp
    show ?thesis
      unfolding l dseg.simps wx c using hx ih by blast
  qed
qed

lemma dseg_set_first_next:
  assumes "dseg W nx (y # ys) pv" and "distinct (y # ys)"
  shows "dseg (W(y := (W y)\<lparr>next := nx'\<rparr>)) nx' (y # ys) pv"
proof -
  have "dseg (W(y := (W y)\<lparr>next := nx'\<rparr>)) y ys pv = dseg W y ys pv"
    using assms(2) by (intro dseg_frame) auto
  with assms show ?thesis by (cases ys) auto
qed

lemma signal_split_null:
  "signal_split c 0 s =
     log (CvStore c F_tail) (upd_cond c (\<lambda>x. x\<lparr>c_tail := 0\<rparr>)
       (log (CvStore c F_head) (upd_cond c (\<lambda>x. x\<lparr>c_head := 0\<rparr>) s)))"
  by (simp add: signal_split_def)

lemma signal_split_node:
  "p \<noteq> 0 \<Longrightarrow> signal_split c p s =
     log (CvStore c F_tail) (upd_cond c (\<lambda>x. x\<lparr>c_tail := p\<rparr>)
       (upd_node p (\<lambda>w. w\<lparr>next := 0\<rparr>)
          (if next (waiters s p) \<noteq> 0
           then upd_node (next (waiters s p)) (\<lambda>w. w\<lparr>prev := 0\<rparr>) s else s)))"
  by (simp add: signal_split_def Let_def nd_def)

lemma signal_split_frame:
  "(waiters (signal_split c p s) x)\<lparr>prev := 0, next := 0\<rparr> = (waiters s x)\<lparr>prev := 0, next := 0\<rparr>"
  "mutexes (signal_split c p s) = mutexes s"
  "locals (signal_split c p s) = locals s"
  "tick (signal_split c p s) = tick s"
  "c_lock (conds (signal_split c p s) c) = c_lock (conds s c)"
  "trace (signal_split c p s) = trace s @
     (if p = 0 then [CvStore c F_head, CvStore c F_tail] else [CvStore c F_tail])"
  by (cases "p = 0"; simp add: signal_split_null signal_split_node state_defs)+

lemma signal_split_dll:
  assumes dl: "dll (waiters s) 0 (vs @ rest)" and di: "distinct (vs @ rest)"
    and hd: "c_head (conds s c) = last0 (vs @ rest)"
  shows "dll (waiters (signal_split c (hd0 rest) s)) 0 vs \<and> cv_list (signal_split c (hd0 rest) s) c rest"
proof (cases rest)
  case Nil
  have "waiters (signal_split c 0 s) = waiters s"
    "c_head (conds (signal_split c 0 s) c) = 0" "c_tail (conds (signal_split c 0 s) c) = 0"
    by (simp_all add: signal_split_null state_defs)
  with dl Nil show ?thesis by (simp add: cv_list_def)
next
  case (Cons y ys)
  from dll_nonzero [OF dl] Cons have y0: "y \<noteq> 0" by auto
  from dl Cons have seg: "dseg (waiters s) 0 vs y"
    and rst: "dseg (waiters s) (if vs = [] then 0 else last vs) (y # ys) 0"
    by (simp_all add: dll_dseg dseg_append)
  let ?s' = "signal_split c y s"
  have cs: "c_head (conds ?s' c) = c_head (conds s c)" "c_tail (conds ?s' c) = y"
    using y0 by (simp_all add: signal_split_node state_defs)
  have hdr: "c_head (conds s c) = last0 (y # ys)"
    using hd Cons by (simp add: last0_def)
  from di Cons have dr: "distinct (y # ys)" and dv: "distinct vs" by simp_all
  have "dseg (waiters ?s') 0 vs 0 \<and> dseg (waiters ?s') 0 (y # ys) 0"
  proof (cases "vs = []")
    case True
    with rst have ny: "next (waiters s y) = 0" by simp
    have w: "waiters ?s' = (waiters s)(y := (waiters s y)\<lparr>next := 0\<rparr>)"
      using y0 ny by (simp add: signal_split_node state_defs)
    have "dseg ((waiters s)(y := (waiters s y)\<lparr>next := 0\<rparr>)) 0 (y # ys) 0"
      using rst True dr by (intro dseg_set_first_next) simp_all
    with True w show ?thesis by simp
  next
    case False
    let ?u = "last vs"
    from rst False have ny: "next (waiters s y) = ?u" by simp
    from False have uvs: "?u \<in> set vs" by simp
    have u0: "?u \<noteq> 0"
    proof
      assume "?u = 0"
      with uvs have "0 \<in> set vs" by simp
      with dll_nonzero [OF dl] show False by simp
    qed
    from di Cons uvs have uy: "?u \<noteq> y" and yvs: "y \<notin> set vs" and uys: "?u \<notin> set ys"
      by auto
    let ?W1 = "(waiters s)(?u := (waiters s ?u)\<lparr>prev := 0\<rparr>)"
    let ?W2 = "?W1(y := (?W1 y)\<lparr>next := 0\<rparr>)"
    have w: "waiters ?s' = ?W2"
      using y0 ny u0 by (simp add: signal_split_node state_defs)
    have "dseg ?W1 0 vs 0"
      using seg dv False by (rule dseg_set_last_prev)
    moreover have "dseg ?W2 0 vs 0 = dseg ?W1 0 vs 0"
      using yvs by (intro dseg_frame) auto
    ultimately have d1: "dseg ?W2 0 vs 0" by simp
    have "dseg ?W1 ?u (y # ys) 0 = dseg (waiters s) ?u (y # ys) 0"
      using uy uys by (intro dseg_frame) auto
    with rst False have "dseg ?W1 ?u (y # ys) 0" by simp
    then have d2: "dseg ?W2 0 (y # ys) 0"
      using dr by (rule dseg_set_first_next)
    from d1 d2 show ?thesis unfolding w by simp
  qed
  with cs hdr dr Cons show ?thesis
    by (simp only: cv_list_def dll_dseg hd0_simps)
qed

subsection \<open>The wake phase\<close>

lemma unlock_barrier_effect:
  "waiters (unlock (W_barrier x) s) = (waiters s)(x := (waiters s x)\<lparr>barrier := 0\<rparr>)"
  "trace (unlock (W_barrier x) s) =
     trace s @ (if barrier (waiters s x) = 2 then [FutexWake (W_barrier x) 1 1] else [])"
  "conds (unlock (W_barrier x) s) = conds s"
  "mutexes (unlock (W_barrier x) s) = mutexes s"
  "locals (unlock (W_barrier x) s) = locals s"
  "tick (unlock (W_barrier x) s) = tick s"
  by (simp_all add: unlock_def a_swap_def wake_def note_atomic_def Let_def state_defs)

lemma wake_effect:
  "waiters (wake l cnt priv s) = waiters s" "conds (wake l cnt priv s) = conds s"
  "mutexes (wake l cnt priv s) = mutexes s" "locals (wake l cnt priv s) = locals s"
  "tick (wake l cnt priv s) = tick s"
  "trace (wake l cnt priv s) = trace s @ [FutexWake l cnt priv]"
  by (simp_all add: wake_def state_defs)

lemma signal_wake_dll:
  assumes "dll (waiters s) nx qs" and "distinct qs"
  shows "\<exists>s' evs. signal_wake (hd0 qs) s = Some s' \<and> trace s' = trace s @ evs
           \<and> state_wakes evs = (if nx = 0 then take 1 qs else [])
           \<and> waiters s' = (\<lambda>x. if x \<in> set qs then (waiters s x)\<lparr>barrier := 0\<rparr> else waiters s x)
           \<and> conds s' = conds s \<and> mutexes s' = mutexes s \<and> locals s' = locals s
           \<and> tick s' = tick s"
  using assms
proof (induction qs arbitrary: s nx)
  case Nil
  show ?case by (subst signal_wake.simps) simp
next
  case (Cons x xs)
  from Cons.prems have x0: "x \<noteq> 0" and nx: "next (waiters s x) = nx"
    and px: "prev (waiters s x) = hd0 xs" and xs: "dll (waiters s) x xs"
    and dx: "x \<notin> set xs" and d: "distinct xs"
    by (auto simp: dll_hd0_prev [OF Cons.prems(1)])
  let ?s1 = "if nx = 0 then wake (W_state x) 1 1 s else s"
  let ?s2 = "unlock (W_barrier x) ?s1"
  have step: "signal_wake x s = signal_wake (hd0 xs) ?s2"
    using x0 nx px by (subst signal_wake.simps) (simp add: Let_def nd_def)
  have w2: "waiters ?s2 = (waiters s)(x := (waiters s x)\<lparr>barrier := 0\<rparr>)"
    by (simp add: unlock_barrier_effect wake_effect)
  have t2: "trace ?s2 = trace s @ (if nx = 0 then [FutexWake (W_state x) 1 1] else [])
              @ (if barrier (waiters s x) = 2 then [FutexWake (W_barrier x) 1 1] else [])"
    by (simp add: unlock_barrier_effect wake_effect)
  have f2: "conds ?s2 = conds s" "mutexes ?s2 = mutexes s" "locals ?s2 = locals s"
    "tick ?s2 = tick s"
    by (simp_all add: unlock_barrier_effect wake_effect)
  have "dll (waiters ?s2) x xs = dll (waiters s) x xs"
    unfolding w2 using dx by (intro dll_frame) auto
  with xs have dll2: "dll (waiters ?s2) x xs" by simp
  from Cons.IH [OF dll2 d] obtain s' evs where
    run: "signal_wake (hd0 xs) ?s2 = Some s'" and tr: "trace s' = trace ?s2 @ evs"
    and sw0: "state_wakes evs = (if x = 0 then take 1 xs else [])"
    and w: "waiters s' = (\<lambda>y. if y \<in> set xs then (waiters ?s2 y)\<lparr>barrier := 0\<rparr> else waiters ?s2 y)"
    and f: "conds s' = conds ?s2" "mutexes s' = mutexes ?s2" "locals s' = locals ?s2"
      "tick s' = tick ?s2"
    by blast
  from sw0 x0 have sw: "state_wakes evs = []" by simp
  let ?evs = "(if nx = 0 then [FutexWake (W_state x) 1 1] else [])
              @ (if barrier (waiters s x) = 2 then [FutexWake (W_barrier x) 1 1] else []) @ evs"
  have r1: "signal_wake (hd0 (x # xs)) s = Some s'" using step run by simp
  have r2: "trace s' = trace s @ ?evs" unfolding tr t2 by simp
  have r3: "state_wakes ?evs = (if nx = 0 then take 1 (x # xs) else [])"
    using sw by simp
  have r4: "waiters s' = (\<lambda>y. if y \<in> set (x # xs) then (waiters s y)\<lparr>barrier := 0\<rparr>
                                     else waiters s y)"
  proof
    fix y
    show "waiters s' y = (if y \<in> set (x # xs) then (waiters s y)\<lparr>barrier := 0\<rparr> else waiters s y)"
      unfolding w w2 using dx by (cases "y = x") simp_all
  qed
  have r5: "conds s' = conds s" "mutexes s' = mutexes s" "locals s' = locals s" "tick s' = tick s"
    using f f2 by simp_all
  show ?case
    by (intro exI [of _ s'] exI [of _ ?evs] conjI r1 r2 r3 r4 r5)
qed

subsection \<open>Waiting for the leavers\<close>

lemma signal_drain_zero: "rd s (Local r) = 0 \<Longrightarrow> signal_drain E r s = Some s"
  by (subst signal_drain.simps) simp

lemma signal_drain_exit:
  assumes "signal_drain E r s = Some s'"
  shows "rd s' (Local r) = 0"
proof (rule signal_drain.raw_induct [where P = "\<lambda>E r s s'. rd s' (Local r) = 0", OF _ assms])
  fix f E r s s'
  assume IH: "\<And>E r s y. f E r s = Some y \<Longrightarrow> rd y (Local r) = 0"
    and step: "(let cur = rd s (Local r)
                in if cur \<noteq> 0 then f E r (wait E (Local r) cur 1 s) else Some s) = Some s'"
  show "rd s' (Local r) = 0"
  proof (cases "rd s (Local r) = 0")
    case True
    with step show ?thesis by (simp add: Let_def)
  next
    case False
    with step have "f E r (wait E (Local r) (rd s (Local r)) 1 s) = Some s'"
      by (simp add: Let_def)
    then show ?thesis by (rule IH)
  qed
qed

lemma signal_drain_keeps_ref:
  assumes keep: "\<And>k h. locals (interfere E k h) r = locals h r"
    and run: "signal_drain E r s = Some s'"
  shows "rd s' (Local r) = rd s (Local r)"
proof -
  let ?P = "\<lambda>E' r' s s'. E' = E \<and> r' = r \<longrightarrow> rd s' (Local r) = rd s (Local r)"
  have "?P E r s s'"
  proof (rule signal_drain.raw_induct [where P = ?P, OF _ run])
    fix f E' r' s s'
    assume IH: "\<And>E' r' s y. f E' r' s = Some y \<Longrightarrow> ?P E' r' s y"
      and step: "(let cur = rd s (Local r')
                  in if cur \<noteq> 0 then f E' r' (wait E' (Local r') cur 1 s) else Some s) = Some s'"
    show "?P E' r' s s'"
    proof
      assume eq: "E' = E \<and> r' = r"
      show "rd s' (Local r) = rd s (Local r)"
      proof (cases "rd s (Local r) = 0")
        case True
        with step eq show ?thesis by (simp add: Let_def)
      next
        case False
        let ?s1 = "wait E (Local r) (rd s (Local r)) 1 s"
        from False step eq have "f E r ?s1 = Some s'" by (simp add: Let_def)
        from IH [OF this] have "rd s' (Local r) = rd ?s1 (Local r)" by simp
        moreover have "rd ?s1 (Local r) = rd s (Local r)"
          by (simp add: wait_def suspend_def log_def Let_def keep)
        ultimately show ?thesis by simp
      qed
    qed
  qed
  then show ?thesis by simp
qed

lemma signal_drain_stuck:
  assumes keep: "\<And>k h. locals (interfere E k h) r = locals h r"
    and pos: "rd s (Local r) \<noteq> 0"
  shows "signal_drain E r s = None"
proof (cases "signal_drain E r s")
  case None
  then show ?thesis .
next
  case (Some s')
  from signal_drain_exit [OF Some] signal_drain_keeps_ref [OF keep Some] pos
  show ?thesis by simp
qed

subsection \<open>A signal on a list of waiting nodes\<close>

lemma walk_len_all_waiting:
  "(\<And>x. x \<in> set ws \<Longrightarrow> st x = WAITING) \<Longrightarrow> walk_len st n ws = walk_len (\<lambda>_. WAITING) n ws"
  by (rule walk_len_cong) simp

lemma walk_len_one [simp]: "walk_len (\<lambda>_. WAITING) 1 (x # xs) = 1"
  by (cases xs) simp_all

lemma split_field_eq:
  assumes "(w' :: waiter)\<lparr>prev := 0, next := 0\<rparr> = w\<lparr>prev := 0, next := 0\<rparr>"
  shows "state w' = state w" "barrier w' = barrier w" "notify w' = notify w"
    "requeued w' = requeued w" "mutex w' = mutex w" "mutex_ret w' = mutex_ret w"
    "cond w' = cond w" "shared w' = shared w"
proof -
  have "f (w'\<lparr>prev := 0, next := 0\<rparr>) = f (w\<lparr>prev := 0, next := 0\<rparr>)" for f :: "waiter \<Rightarrow> 'b"
    using assms by simp
  from this [of state] this [of barrier] this [of notify] this [of requeued] this [of mutex]
    this [of mutex_ret] this [of cond] this [of shared]
  show "state w' = state w" "barrier w' = barrier w" "notify w' = notify w"
    "requeued w' = requeued w" "mutex w' = mutex w" "mutex_ret w' = mutex_ret w"
    "cond w' = cond w" "shared w' = shared w"
    by simp_all
qed

lemma dll_next_in:
  "dll W nx ws \<Longrightarrow> p \<in> set ws \<Longrightarrow> next (W p) = nx \<or> next (W p) \<in> set ws"
  by (induction ws arbitrary: nx) auto

lemma dll_next_nonnull:
  "dll W nx ws \<Longrightarrow> nx \<noteq> 0 \<Longrightarrow> p \<in> set ws \<Longrightarrow> next (W p) \<noteq> 0"
  by (induction ws arbitrary: nx) auto

lemma signal_split_outside:
  assumes "x \<noteq> p" and "x \<noteq> next (waiters s p) \<or> next (waiters s p) = 0"
  shows "waiters (signal_split c p s) x = waiters s x"
proof (cases "p = 0")
  case True
  then show ?thesis by (simp add: signal_split_null state_defs)
next
  case False
  with assms show ?thesis by (auto simp: signal_split_node state_defs)
qed

lemma signal_on_waiting_list:
  assumes cv: "cv_list s c ws"
    and wt: "\<And>x. x \<in> set ws \<Longrightarrow> state (waiters s x) = WAITING"
    and lk: "c_lock (conds s c) = 0"
  shows "\<exists>s' evs. private_cond_signal E c n r s = Some (0, s') \<and> trace s' = trace s @ evs
           \<and> state_wakes evs = take 1 (take (walk_len (\<lambda>_. WAITING) n ws) ws)
           \<and> cv_list s' c (drop (walk_len (\<lambda>_. WAITING) n ws) ws) \<and> dll (waiters s') 0 (take (walk_len (\<lambda>_. WAITING) n ws) ws)
           \<and> (\<forall>x. state (waiters s' x)
                     = (if x \<in> set (take (walk_len (\<lambda>_. WAITING) n ws) ws) then SIGNALED else state (waiters s x)))
           \<and> (\<forall>x\<in>set (take (walk_len (\<lambda>_. WAITING) n ws) ws). barrier (waiters s' x) = 0)
           \<and> (\<forall>x. x \<notin> set ws \<longrightarrow> waiters s' x = waiters s x)
           \<and> c_lock (conds s' c) = 0 \<and> mutexes s' = mutexes s \<and> tick s' = tick s"
proof -
  define k where "k = walk_len (\<lambda>_. WAITING) n ws"
  define vs where "vs = take k ws"
  define rest where "rest = drop k ws"
  have ws: "ws = vs @ rest" and vsub: "\<And>x. x \<in> set vs \<Longrightarrow> x \<in> set ws"
    by (auto simp: vs_def rest_def dest: in_set_takeD)
  from cv have di: "distinct ws" and dl: "dll (waiters s) 0 ws"
    and tl: "c_tail (conds s c) = hd0 ws" and hd: "c_head (conds s c) = last0 ws"
    by (simp_all add: cv_list_def)
  \<comment> \<open>the lock of the condition variable is free\<close>
  define s0 where "s0 = wr (Local r) 0 s"
  define s1 where "s1 = note_atomic (C_lock c) (wr (C_lock c) 1 s0)"
  define s2 where "s2 = log (CvLoad c F_tail) s1"
  have l1: "lock E (C_lock c) s0 = Some s1"
    unfolding s1_def using lk by (intro lock_free) (simp add: s0_def state_defs)
  have w2: "waiters s2 = waiters s" and m2: "mutexes s2 = mutexes s" and k2: "tick s2 = tick s"
    and t2: "trace s2 = trace s @ [CvAtomic c F_lock, CvLoad c F_tail]"
    and c2: "c_tail (conds s2 c) = hd0 ws" "c_head (conds s2 c) = last0 ws"
      "c_lock (conds s2 c) = 1"
    and r2: "locals s2 r = 0"
    using tl hd by (simp_all add: s2_def s1_def s0_def state_defs)
  \<comment> \<open>the walk\<close>
  have wl: "walk_len (\<lambda>x. state (waiters s2 x)) n ws = k"
    unfolding k_def w2 by (rule walk_len_all_waiting) (rule wt)
  have fl: "filter (\<lambda>x. state (waiters s2 x) = WAITING) vs = vs"
    unfolding w2 by (rule filter_True) (simp add: wt vsub)
  define s3 where "s3 = walked r vs s2"
  have dl2: "dll (waiters s2) 0 ws" unfolding w2 by (rule dl)
  have walk: "signal_walk r (hd0 ws) n 0 s2 = Some (hd0 rest, hd0 vs, s3)"
    unfolding signal_walk_dll [OF dl2 di] wl vs_def [symmetric] rest_def [symmetric] fl s3_def
    by (simp only: if_False simp_thms)
  have nl: "filter (\<lambda>x. state (waiters s2 x) \<noteq> WAITING) vs = []"
    unfolding w2 by (simp add: filter_empty_conv wt vsub)
  have w3: "waiters s3 = (\<lambda>x. if x \<in> set vs then (waiters s x)\<lparr>state := SIGNALED\<rparr>
                                  else waiters s x)"
    unfolding s3_def walked_def w2 by (auto simp: fun_eq_iff wt vsub)
  have f3: "conds s3 = conds s2" "mutexes s3 = mutexes s" "tick s3 = tick s"
    "trace s3 = trace s2" "locals s3 r = 0"
    unfolding s3_def walked_def using m2 k2 r2 nl by simp_all
  have "dll (waiters s3) 0 ws = dll (waiters s) 0 ws"
    unfolding w3 by (intro dll_frame) auto
  with dl have dl3: "dll (waiters s3) 0 (vs @ rest)" unfolding ws by simp
  have di3: "distinct (vs @ rest)" using di unfolding ws .
  have hd3: "c_head (conds s3 c) = last0 (vs @ rest)" using c2 f3 unfolding ws by simp
  \<comment> \<open>the split\<close>
  define s4 where "s4 = signal_split c (hd0 rest) s3"
  from signal_split_dll [OF dl3 di3 hd3]
  have dv4: "dll (waiters s4) 0 vs" and cv4: "cv_list s4 c rest" by (simp_all add: s4_def)
  note f4 = signal_split_frame [of c "hd0 rest" s3, folded s4_def]
  have st4: "state (waiters s4 x) = state (waiters s3 x)" for x
    by (rule split_field_eq(1)) (rule f4(1))
  define s5 where "s5 = unlock (C_lock c) s4"
  have u5: "s5 = note_atomic (C_lock c) (wr (C_lock c) 0 s4)"
    unfolding s5_def using f4(5) f3(1) c2(3) by (simp add: unlock_def a_swap_def Let_def)
  have w5: "waiters s5 = waiters s4" and m5: "mutexes s5 = mutexes s"
    and k5: "tick s5 = tick s" and r5: "rd s5 (Local r) = 0"
    and c5: "c_lock (conds s5 c) = 0" "c_tail (conds s5 c) = c_tail (conds s4 c)"
      "c_head (conds s5 c) = c_head (conds s4 c)"
    unfolding u5 using f4 f3 by (simp_all add: state_defs)
  have t5: "trace s5 = trace s @ [CvAtomic c F_lock, CvLoad c F_tail]
              @ (if hd0 rest = 0 then [CvStore c F_head, CvStore c F_tail] else [CvStore c F_tail])
              @ [CvAtomic c F_lock]"
    unfolding u5 using f4(6) f3(4) t2 by (simp add: state_defs)
  \<comment> \<open>nobody is leaving\<close>
  have dr: "signal_drain E r s5 = Some s5" using r5 by (rule signal_drain_zero)
  \<comment> \<open>the wake phase\<close>
  have dv5: "dll (waiters s5) 0 vs" using dv4 w5 by simp
  have dvs: "distinct vs" using di unfolding ws by simp
  from signal_wake_dll [OF dv5 dvs] obtain s' evs where
    wk: "signal_wake (hd0 vs) s5 = Some s'" and tr: "trace s' = trace s5 @ evs"
    and sw0: "state_wakes evs = (if (0::addr) = 0 then take 1 vs else [])"
    and w': "waiters s' = (\<lambda>x. if x \<in> set vs then (waiters s5 x)\<lparr>barrier := 0\<rparr>
                                 else waiters s5 x)"
    and f': "conds s' = conds s5" "mutexes s' = mutexes s5" "tick s' = tick s5"
    by blast
  from sw0 have sw: "state_wakes evs = take 1 vs" by simp
  let ?evs = "[CvAtomic c F_lock, CvLoad c F_tail]
              @ (if hd0 rest = 0 then [CvStore c F_head, CvStore c F_tail] else [CvStore c F_tail])
              @ [CvAtomic c F_lock] @ evs"
  have r1: "private_cond_signal E c n r s = Some (0, s')"
    unfolding private_cond_signal_def Let_def s0_def [symmetric]
    using l1 walk dr wk c2(1)
    by (simp add: s2_def [symmetric] s4_def [symmetric] s5_def [symmetric])
  have r2': "trace s' = trace s @ ?evs" unfolding tr t5 by simp
  have r3: "state_wakes ?evs = take 1 vs" using sw by simp
  have "dll (waiters s') 0 rest = dll (waiters s4) 0 rest"
    unfolding w' w5 by (intro dll_frame) auto
  then have r4: "cv_list s' c rest"
    using cv4 f'(1) c5 by (simp add: cv_list_def)
  have "dll (waiters s') 0 vs = dll (waiters s4) 0 vs"
    unfolding w' w5 by (intro dll_frame) auto
  with dv4 have r5': "dll (waiters s') 0 vs" by simp
  have r6: "\<forall>x. state (waiters s' x) = (if x \<in> set vs then SIGNALED else state (waiters s x))"
    unfolding w' w5 by (simp add: st4 w3)
  have r7: "\<forall>x\<in>set vs. barrier (waiters s' x) = 0"
    unfolding w' by simp
  have r8: "c_lock (conds s' c) = 0" "mutexes s' = mutexes s" "tick s' = tick s"
    using f' c5 m5 k5 by simp_all
  have out4: "waiters s4 x = waiters s3 x" if x: "x \<notin> set ws" for x
  proof (cases rest)
    case Nil
    then show ?thesis by (simp add: s4_def signal_split_null state_defs)
  next
    case (Cons y ys)
    then have y: "y \<in> set ws" unfolding ws by simp
    from dll_next_in [OF dl3 [folded ws] y] x y
    have "x \<noteq> y" and "x \<noteq> next (waiters s3 y) \<or> next (waiters s3 y) = 0" by auto
    then show ?thesis unfolding s4_def Cons hd0_simps by (rule signal_split_outside)
  qed
  have r9: "\<forall>x. x \<notin> set ws \<longrightarrow> waiters s' x = waiters s x"
  proof (intro allI impI)
    fix x assume x: "x \<notin> set ws"
    then have "x \<notin> set vs" using vsub by blast
    then have "waiters s' x = waiters s4 x" unfolding w' w5 by simp
    also have "\<dots> = waiters s3 x" using x by (rule out4)
    also have "\<dots> = waiters s x" unfolding w3 using \<open>x \<notin> set vs\<close> by simp
    finally show "waiters s' x = waiters s x" .
  qed
  show ?thesis
    unfolding k_def [symmetric] vs_def [symmetric] rest_def [symmetric]
    by (intro exI [of _ s'] exI [of _ ?evs] conjI r1 r2' r3 r4 r5' r6 r7 r8 r9)
qed

lemma suspend_effect:
  "waiters (suspend E s) = waiters (interfere E (tick s) s)" "trace (suspend E s) = trace s"
  by (simp_all add: suspend_def Let_def)

text \<open>The wake phase of a signaler that can be preempted, on a chain whose links the other
  threads leave alone.  \<open>A\<close> is the set of the nodes that they leave alone.\<close>

lemma signal_wake_preempt_dll:
  assumes "dll (waiters s) nx qs" and "distinct qs" and "set qs \<subseteq> A"
    and stable: "\<And>k h x. x \<in> A \<Longrightarrow> next (waiters (interfere E k h) x) = next (waiters h x)
                               \<and> prev (waiters (interfere E k h) x) = prev (waiters h x)"
  shows "\<exists>s' evs. signal_wake_preempt E (hd0 qs) s = Some s' \<and> trace s' = trace s @ evs
           \<and> state_wakes evs = (if nx = 0 then take 1 qs else [])
           \<and> ((\<forall>k h x. x \<in> A \<longrightarrow> barrier (waiters (interfere E k h) x) = barrier (waiters h x))
                \<longrightarrow> (\<forall>p\<in>A. barrier (waiters s' p)
                              = (if p \<in> set qs then 0 else barrier (waiters s p))))"
  using assms(1-3)
proof (induction qs arbitrary: s nx)
  case Nil
  show ?case by (subst signal_wake_preempt.simps) simp
next
  case (Cons x xs)
  from Cons.prems have x0: "x \<noteq> 0" and nx: "next (waiters s x) = nx"
    and px: "prev (waiters s x) = hd0 xs" and xs: "dll (waiters s) x xs"
    and dx: "x \<notin> set xs" and d: "distinct xs" and sub: "set xs \<subseteq> A" and xA: "x \<in> A"
    by (auto simp: dll_hd0_prev [OF Cons.prems(1)])
  define s1 where "s1 = (if nx = 0 then wake (W_state x) 1 1 s else s)"
  define s2 where "s2 = unlock (W_barrier x) s1"
  define s3 where "s3 = suspend E s2"
  have step: "signal_wake_preempt E x s = signal_wake_preempt E (hd0 xs) s3"
    using x0 nx px unfolding s3_def s2_def s1_def
    by (subst signal_wake_preempt.simps) (simp add: Let_def nd_def)
  have w2: "waiters s2 = (waiters s)(x := (waiters s x)\<lparr>barrier := 0\<rparr>)"
    unfolding s2_def s1_def by (simp add: unlock_barrier_effect wake_effect)
  have t3: "trace s3 = trace s @ (if nx = 0 then [FutexWake (W_state x) 1 1] else [])
              @ (if barrier (waiters s x) = 2 then [FutexWake (W_barrier x) 1 1] else [])"
    unfolding s3_def s2_def s1_def by (simp add: suspend_effect unlock_barrier_effect wake_effect)
  have w3: "waiters s3 = waiters (interfere E (tick s2) s2)"
    unfolding s3_def by (simp add: suspend_effect)
  have links: "next (waiters s3 y) = next (waiters s y) \<and> prev (waiters s3 y) = prev (waiters s y)"
    if "y \<in> A" for y
    unfolding w3 using stable [OF that, of "tick s2" s2] by (simp add: w2)
  have "dll (waiters s3) x xs = dll (waiters s) x xs"
    using sub by (intro dll_frame links) auto
  with xs have dll3: "dll (waiters s3) x xs" by simp
  from Cons.IH [OF dll3 d sub] obtain s' evs where
    run: "signal_wake_preempt E (hd0 xs) s3 = Some s'" and tr: "trace s' = trace s3 @ evs"
    and sw0: "state_wakes evs = (if x = 0 then take 1 xs else [])"
    and b: "(\<forall>k h x. x \<in> A \<longrightarrow> barrier (waiters (interfere E k h) x) = barrier (waiters h x))
              \<longrightarrow> (\<forall>p\<in>A. barrier (waiters s' p)
                            = (if p \<in> set xs then 0 else barrier (waiters s3 p)))"
    by blast
  from sw0 x0 have sw: "state_wakes evs = []" by simp
  let ?evs = "(if nx = 0 then [FutexWake (W_state x) 1 1] else [])
              @ (if barrier (waiters s x) = 2 then [FutexWake (W_barrier x) 1 1] else []) @ evs"
  have r1: "signal_wake_preempt E (hd0 (x # xs)) s = Some s'" using step run by simp
  have r2: "trace s' = trace s @ ?evs" unfolding tr t3 by simp
  have r3: "state_wakes ?evs = (if nx = 0 then take 1 (x # xs) else [])"
    using sw by simp
  have r4: "(\<forall>k h x. x \<in> A \<longrightarrow> barrier (waiters (interfere E k h) x) = barrier (waiters h x))
              \<longrightarrow> (\<forall>p\<in>A. barrier (waiters s' p)
                            = (if p \<in> set (x # xs) then 0 else barrier (waiters s p)))"
  proof (intro impI ballI)
    fix p
    assume keep: "\<forall>k h x. x \<in> A \<longrightarrow> barrier (waiters (interfere E k h) x) = barrier (waiters h x)"
      and p: "p \<in> A"
    from keep p have "barrier (waiters s3 p) = barrier (waiters s2 p)"
      unfolding w3 by blast
    then have b3: "barrier (waiters s3 p) = (if p = x then 0 else barrier (waiters s p))"
      by (simp add: w2)
    from b keep p
    have "barrier (waiters s' p) = (if p \<in> set xs then 0 else barrier (waiters s3 p))"
      by blast
    with b3 show "barrier (waiters s' p) = (if p \<in> set (x # xs) then 0 else barrier (waiters s p))"
      by auto
  qed
  show ?case
    by (intro exI [of _ s'] exI [of _ ?evs] conjI r1 r2 r3 r4)
qed

text \<open>
  Claim C7, as far as it holds.  The wake phase of \<open>__private_cond_signal\<close> runs over the
  detached chain of claimed nodes \<open>qs\<close> (oldest first, not empty) while the other threads
  go on.  If they do not write the \<open>prev\<close> and \<open>next\<close> fields of the claimed nodes during
  the phase, then the phase ends, exactly one futex wake on a state word is issued, for
  the oldest claimed node, which is the only node of the chain whose \<open>next\<close> pointer is
  null, and the barrier of every claimed node is released: it is 0 at the end if the other
  threads have not written it either.  The hypothesis is needed, as the example after
  the theorem shows.
\<close>

theorem C7_wake_phase_on_stable_chain:
  assumes "dll (waiters s) 0 qs" and "distinct qs" and "qs \<noteq> []"
    and stable: "\<And>k h x. x \<in> set qs \<Longrightarrow>
                   next (waiters (interfere E k h) x) = next (waiters h x)
                   \<and> prev (waiters (interfere E k h) x) = prev (waiters h x)"
  shows "\<exists>s' evs. signal_wake_preempt E (hd qs) s = Some s' \<and> trace s' = trace s @ evs
           \<and> state_wakes evs = [hd qs]
           \<and> next (waiters s (hd qs)) = 0
           \<and> (\<forall>p\<in>set (tl qs). next (waiters s p) \<noteq> 0)
           \<and> ((\<forall>k h x. x \<in> set qs \<longrightarrow>
                   barrier (waiters (interfere E k h) x) = barrier (waiters h x))
                \<longrightarrow> (\<forall>p\<in>set qs. barrier (waiters s' p) = 0))"
proof -
  from assms(3) obtain q qs' where qs: "qs = q # qs'" by (cases qs) auto
  from signal_wake_preempt_dll [OF assms(1,2) subset_refl stable] obtain s' evs where
    run: "signal_wake_preempt E (hd0 qs) s = Some s'" and tr: "trace s' = trace s @ evs"
    and sw: "state_wakes evs = (if (0::addr) = 0 then take 1 qs else [])"
    and b: "(\<forall>k h x. x \<in> set qs \<longrightarrow>
                barrier (waiters (interfere E k h) x) = barrier (waiters h x))
            \<longrightarrow> (\<forall>p\<in>set qs. barrier (waiters s' p)
                                = (if p \<in> set qs then 0 else barrier (waiters s p)))"
    by blast
  from assms(1) qs have q0: "q \<noteq> 0" and nq: "next (waiters s q) = 0"
    and rest: "dll (waiters s) q qs'"
    by simp_all
  have r1: "signal_wake_preempt E (hd qs) s = Some s'" using run qs by simp
  have r3: "state_wakes evs = [hd qs]" using sw qs by simp
  have r4: "next (waiters s (hd qs)) = 0" using nq qs by simp
  have r5: "\<forall>p\<in>set (tl qs). next (waiters s p) \<noteq> 0"
    using dll_next_nonnull [OF rest q0] qs by simp
  have r6: "(\<forall>k h x. x \<in> set qs \<longrightarrow>
                barrier (waiters (interfere E k h) x) = barrier (waiters h x))
            \<longrightarrow> (\<forall>p\<in>set qs. barrier (waiters s' p) = 0)"
    using b by simp
  show ?thesis by (intro exI [of _ s'] exI [of _ evs] conjI r1 tr r3 r4 r5 r6)
qed

theorem C7_witness:
  "\<exists>s'. signal_wake_preempt env0 1 st_chain = Some s'
     \<and> state_wakes (trace s') = [1]
     \<and> trace s' = [FutexWake (W_state 1) 1 1, FutexWake (W_barrier 3) 1 1]
     \<and> barrier (waiters s' 1) = 0 \<and> barrier (waiters s' 2) = 0 \<and> barrier (waiters s' 3) = 0"
proof -
  have "map_option trace (signal_wake_preempt env0 1 st_chain)
          = Some [FutexWake (W_state 1) 1 1, FutexWake (W_barrier 3) 1 1]"
    by code_simp
  then obtain s' where run: "signal_wake_preempt env0 1 st_chain = Some s'"
    and tr: "trace s' = [FutexWake (W_state 1) 1 1, FutexWake (W_barrier 3) 1 1]"
    by auto
  have "dll (waiters st_chain) 0 [1, 2, 3]" and "distinct [1, 2, 3 :: addr]"
    and "[1, 2, 3 :: addr] \<noteq> []"
    and "\<And>k h x. x \<in> set [1, 2, 3 :: addr] \<Longrightarrow>
           next (waiters (interfere env0 k h) x) = next (waiters h x)
           \<and> prev (waiters (interfere env0 k h) x) = prev (waiters h x)"
    by (simp_all add: st_chain_def fixture_defs)
  from C7_wake_phase_on_stable_chain [OF this] run tr show ?thesis
    by (auto simp: st_chain_def fixture_defs)
qed

text \<open>
  Without the hypothesis the claim fails.  The chain 1, 2, 3 is well formed when the wake
  phase starts, and the mutex is free.  The signaler wakes node 1 and releases its
  barrier; the thread of node 1 then runs \<open>unwait\<close>: it gets the mutex and unlinks itself,
  which stores null in the \<open>next\<close> field of node 2 (line 136).  In its second round the
  signaler finds \<open>p->next\<close> null and wakes the state word of node 2 as well.
\<close>

theorem C7_counterexample:
  "dll (waiters st_chain) 0 [1, 2, 3]
   \<and> map_option (\<lambda>s'. state_wakes (trace s')) (signal_wake_preempt env_departing 1 st_chain)
       = Some [1, 2]"
proof
  show "dll (waiters st_chain) 0 [1, 2, 3]"
    by (simp add: st_chain_def fixture_defs)
  show "map_option (\<lambda>s'. state_wakes (trace s')) (signal_wake_preempt env_departing 1 st_chain)
          = Some [1, 2]"
    by code_simp
qed

subsection \<open>Enqueueing\<close>

lemma register_private_appends:
  assumes cv: "cv_list s c xs" and lk: "c_lock (conds s c) = 0"
    and fresh: "w \<notin> set xs" and w0: "w \<noteq> 0"
  shows "\<exists>s'. register_private E c w (upd_node w (\<lambda>_. new_node c m) s)
                = Some (W_state w, WAITING, s')
           \<and> cv_list s' c (xs @ [w]) \<and> state (waiters s' w) = WAITING
           \<and> (\<forall>x. x \<noteq> w \<longrightarrow> state (waiters s' x) = state (waiters s x))
           \<and> c_lock (conds s' c) = 0"
proof -
  from cv have di: "distinct xs" and dl: "dseg (waiters s) 0 xs 0"
    and tl: "c_tail (conds s c) = hd0 xs" and hd: "c_head (conds s c) = last0 xs"
    by (simp_all add: cv_list_def dll_dseg)
  from dl have nz: "0 \<notin> set xs" using dll_nonzero [of "waiters s" 0 xs] by (simp add: dll_dseg)
  define x0 where "x0 = upd_node w (\<lambda>_. new_node c m) s"
  define s1 where "s1 = note_atomic (C_lock c) (wr (C_lock c) 1 x0)"
  have l1: "lock E (C_lock c) x0 = Some s1"
    unfolding s1_def using lk by (intro lock_free) (simp add: x0_def state_defs)
  define N where "N = (new_node c m)\<lparr>barrier := 1, state := WAITING, next := last0 xs\<rparr>"
  define W' where "W' = (if xs = [] then (waiters s)(w := N)
      else ((waiters s)(w := N))(last xs := (waiters s (last xs))\<lparr>prev := w\<rparr>))"
  define s' where "s' = unlock (C_lock c)
       (let s2 = upd_node w (\<lambda>x. x\<lparr>barrier := 1\<rparr>) s1;
            s3 = upd_node w (\<lambda>x. x\<lparr>state := WAITING\<rparr>) s2;
            s4 = log (CvLoad c F_head) s3;
            s5 = upd_node w (\<lambda>x. x\<lparr>next := c_head (conds s4 c)\<rparr>) s4;
            s6 = log (CvStore c F_head) (upd_cond c (\<lambda>x. x\<lparr>c_head := w\<rparr>) s5);
            s7 = log (CvLoad c F_tail) s6
        in if c_tail (conds s7 c) = 0
           then log (CvStore c F_tail) (upd_cond c (\<lambda>x. x\<lparr>c_tail := w\<rparr>) s7)
           else upd_node (next (nd s7 w)) (\<lambda>x. x\<lparr>prev := w\<rparr>) s7)"
  have run: "register_private E c w x0 = Some (W_state w, WAITING, s')"
    unfolding register_private_def s'_def using l1 by (simp add: Let_def)
  have lw: "last xs \<noteq> w" if "xs \<noteq> []" using that fresh last_in_set by metis
  have tz: "(hd0 xs = 0) = (xs = [])" using nz by (cases xs) auto
  have w': "waiters s' = W'"
  proof (cases "xs = []")
    case True
    then show ?thesis
      using tl hd
      by (simp add: s'_def s1_def x0_def W'_def N_def unlock_def a_swap_def wake_def Let_def
          state_defs new_node_def)
  next
    case False
    then have "hd0 xs \<noteq> 0" using tz by simp
    with False lw [OF False] show ?thesis
      using tl hd w0
      by (auto simp: s'_def s1_def x0_def W'_def N_def unlock_def a_swap_def wake_def Let_def
          state_defs new_node_def last0_def fun_eq_iff)
  qed
  have c': "c_lock (conds s' c) = 0" "c_head (conds s' c) = w"
    "c_tail (conds s' c) = (if xs = [] then w else hd0 xs)"
    using tl tz
    by (auto simp: s'_def s1_def x0_def unlock_def a_swap_def wake_def Let_def state_defs)
  have d1: "dseg W' 0 xs w"
  proof (cases "xs = []")
    case True
    then show ?thesis by simp
  next
    case False
    have "dseg ((waiters s)(last xs := (waiters s (last xs))\<lparr>prev := w\<rparr>)) 0 xs w"
      using dl di False by (rule dseg_set_last_prev)
    moreover have "dseg W' 0 xs w
        = dseg ((waiters s)(last xs := (waiters s (last xs))\<lparr>prev := w\<rparr>)) 0 xs w"
      unfolding W'_def using False fresh by (intro dseg_frame) auto
    ultimately show ?thesis by simp
  qed
  have Ww: "W' w = N" unfolding W'_def using lw by auto
  have d2: "dseg W' (if xs = [] then 0 else last xs) [w] 0"
    using w0 unfolding dseg.simps Ww N_def by (simp add: new_node_def last0_def)
  have "dseg W' 0 (xs @ [w]) 0" unfolding dseg_append using d1 d2 by simp
  then have r2: "cv_list s' c (xs @ [w])"
    unfolding cv_list_def dll_dseg w' using di fresh c' by (cases xs) (simp_all add: last0_def)
  have r3: "state (waiters s' w) = WAITING" unfolding w' Ww N_def by simp
  have r4: "\<forall>x. x \<noteq> w \<longrightarrow> state (waiters s' x) = state (waiters s x)"
    unfolding w' W'_def by auto
  show ?thesis
    unfolding x0_def [symmetric]
    by (intro exI [of _ s'] conjI run r2 r3 r4 c')
qed

lemma enqueue_builds_list:
  assumes "cv_list s c xs" and "c_lock (conds s c) = 0" and "distinct (xs @ ws)"
    and "0 \<notin> set ws" and "\<forall>x\<in>set xs. state (waiters s x) = WAITING"
  shows "\<exists>s'. enqueue E c m ws s = Some s' \<and> cv_list s' c (xs @ ws)
           \<and> (\<forall>x\<in>set (xs @ ws). state (waiters s' x) = WAITING) \<and> c_lock (conds s' c) = 0"
  using assms
proof (induction ws arbitrary: s xs)
  case Nil
  then show ?case by simp
next
  case (Cons w ws)
  from Cons.prems have fresh: "w \<notin> set xs" and w0: "w \<noteq> 0" by auto
  from register_private_appends [OF Cons.prems(1,2) fresh w0, of E m] obtain s1 where
    reg: "register_private E c w (upd_node w (\<lambda>_. new_node c m) s) = Some (W_state w, WAITING, s1)"
    and cv1: "cv_list s1 c (xs @ [w])" and sw: "state (waiters s1 w) = WAITING"
    and so: "\<forall>x. x \<noteq> w \<longrightarrow> state (waiters s1 x) = state (waiters s x)"
    and lk1: "c_lock (conds s1 c) = 0"
    by blast
  have d1: "distinct ((xs @ [w]) @ ws)" and z1: "0 \<notin> set ws"
    using Cons.prems by auto
  have st1: "\<forall>x\<in>set (xs @ [w]). state (waiters s1 x) = WAITING"
    using sw so Cons.prems(5) fresh by auto
  from Cons.IH [OF cv1 lk1 d1 z1 st1] obtain s' where
    "enqueue E c m ws s1 = Some s'" "cv_list s' c ((xs @ [w]) @ ws)"
    "\<forall>x\<in>set ((xs @ [w]) @ ws). state (waiters s' x) = WAITING" "c_lock (conds s' c) = 0"
    by blast
  with reg show ?case by (intro exI [of _ s']) simp
qed

subsection \<open>Successive signals\<close>

lemma walk_len_zero [simp]: "walk_len st 0 ws = 0"
  by (cases ws) simp_all

lemma signals_fifo:
  assumes "cv_list s c ws" and "\<forall>x\<in>set ws. state (waiters s x) = WAITING"
    and "c_lock (conds s c) = 0" and "K \<le> length ws"
  shows "\<exists>s' evs. signals E c r K s = Some s' \<and> trace s' = trace s @ evs
           \<and> state_wakes evs = take K ws \<and> cv_list s' c (drop K ws)
           \<and> (\<forall>x\<in>set (take K ws). state (waiters s' x) = SIGNALED
                  \<and> prev (waiters s' x) = 0 \<and> next (waiters s' x) = 0)
           \<and> (\<forall>x\<in>set (drop K ws). state (waiters s' x) = WAITING)
           \<and> c_lock (conds s' c) = 0
           \<and> (\<forall>x. x \<notin> set ws \<longrightarrow> waiters s' x = waiters s x)"
  using assms
proof (induction K arbitrary: s ws)
  case 0
  then show ?case by simp
next
  case (Suc K)
  from Suc.prems(4) obtain x xs where ws: "ws = x # xs" by (cases ws) auto
  from Suc.prems(1) ws have dx: "x \<notin> set xs" by (simp add: cv_list_def)
  have wt: "\<And>y. y \<in> set ws \<Longrightarrow> state (waiters s y) = WAITING" using Suc.prems(2) by simp
  from signal_on_waiting_list [OF Suc.prems(1) wt Suc.prems(3), of E 1 r]
  obtain s1 evs1 where
    sig: "private_cond_signal E c 1 r s = Some (0, s1)" and tr1: "trace s1 = trace s @ evs1"
    and sw1: "state_wakes evs1 = [x]" and cv1: "cv_list s1 c xs"
    and ch1: "dll (waiters s1) 0 [x]"
    and st1: "\<forall>y. state (waiters s1 y) = (if y \<in> set [x] then SIGNALED else state (waiters s y))"
    and lk1: "c_lock (conds s1 c) = 0"
    and out1: "\<forall>y. y \<notin> set ws \<longrightarrow> waiters s1 y = waiters s y"
    unfolding ws by (auto simp: ws)
  have wt1: "\<forall>y\<in>set xs. state (waiters s1 y) = WAITING"
    using st1 dx Suc.prems(2) ws by auto
  have K: "K \<le> length xs" using Suc.prems(4) ws by simp
  from Suc.IH [OF cv1 wt1 lk1 K] obtain s' evs where
    run: "signals E c r K s1 = Some s'" and tr: "trace s' = trace s1 @ evs"
    and sw: "state_wakes evs = take K xs" and cv': "cv_list s' c (drop K xs)"
    and cl: "\<forall>y\<in>set (take K xs). state (waiters s' y) = SIGNALED
                  \<and> prev (waiters s' y) = 0 \<and> next (waiters s' y) = 0"
    and wa: "\<forall>y\<in>set (drop K xs). state (waiters s' y) = WAITING"
    and lk': "c_lock (conds s' c) = 0"
    and out: "\<forall>y. y \<notin> set xs \<longrightarrow> waiters s' y = waiters s1 y"
    by blast
  have wx: "waiters s' x = waiters s1 x" using out dx by simp
  have r1: "signals E c r (Suc K) s = Some s'" using sig run by simp
  have r2: "trace s' = trace s @ (evs1 @ evs)" using tr tr1 by simp
  have r3: "state_wakes (evs1 @ evs) = take (Suc K) ws" using sw sw1 ws by simp
  have r4: "cv_list s' c (drop (Suc K) ws)" using cv' ws by simp
  have r5: "\<forall>y\<in>set (take (Suc K) ws). state (waiters s' y) = SIGNALED
                  \<and> prev (waiters s' y) = 0 \<and> next (waiters s' y) = 0"
    using cl wx st1 ch1 ws by simp
  have r6: "\<forall>y\<in>set (drop (Suc K) ws). state (waiters s' y) = WAITING" using wa ws by simp
  have r7: "\<forall>y. y \<notin> set ws \<longrightarrow> waiters s' y = waiters s y"
    using out out1 ws by simp
  show ?case
    by (intro exI [of _ s'] exI [of _ "evs1 @ evs"] conjI r1 r2 r3 r4 r5 r6 lk' r7)
qed

text \<open>
  Claim C4: on a private condition variable the threads \<open>W\<^sub>1 \<dots> W\<^sub>N\<close> register in this
  order, which makes a list of waiting nodes with \<open>W\<^sub>1\<close>, the oldest, at the tail; with no
  leavers and no timeouts, \<open>K \<le> N\<close> successive calls \<open>signal(cv, 1)\<close> all return; they wake
  the state futexes of \<open>W\<^sub>1 \<dots> W\<^sub>K\<close>, in this order, leave these nodes \<open>SIGNALED\<close> and
  detached, and leave \<open>W\<^bsub>K+1\<^esub> \<dots> W\<^sub>N\<close> waiting on the list.
\<close>

theorem C4_signal_fifo:
  assumes empty: "c_head (conds s c) = 0" "c_tail (conds s c) = 0" and lk: "c_lock (conds s c) = 0"
    and ws: "distinct ws" "0 \<notin> set ws" and K: "K \<le> length ws"
  shows "\<exists>s1 s2 evs. enqueue E c m ws s = Some s1 \<and> cv_list s1 c ws
           \<and> (\<forall>x\<in>set ws. state (waiters s1 x) = WAITING)
           \<and> signals E c r K s1 = Some s2 \<and> trace s2 = trace s1 @ evs
           \<and> state_wakes evs = take K ws
           \<and> (\<forall>x\<in>set (take K ws). state (waiters s2 x) = SIGNALED
                  \<and> prev (waiters s2 x) = 0 \<and> next (waiters s2 x) = 0)
           \<and> cv_list s2 c (drop K ws)
           \<and> (\<forall>x\<in>set (drop K ws). state (waiters s2 x) = WAITING)"
proof -
  have cv0: "cv_list s c []" using empty by (simp add: cv_list_def)
  from enqueue_builds_list [OF cv0 lk, of ws E m] ws obtain s1 where
    e: "enqueue E c m ws s = Some s1" and cv1: "cv_list s1 c ws"
    and wt: "\<forall>x\<in>set ws. state (waiters s1 x) = WAITING" and lk1: "c_lock (conds s1 c) = 0"
    by auto
  from signals_fifo [OF cv1 wt lk1 K, of E r] obtain s2 evs where
    "signals E c r K s1 = Some s2" "trace s2 = trace s1 @ evs" "state_wakes evs = take K ws"
    "cv_list s2 c (drop K ws)"
    "\<forall>x\<in>set (take K ws). state (waiters s2 x) = SIGNALED
         \<and> prev (waiters s2 x) = 0 \<and> next (waiters s2 x) = 0"
    "\<forall>x\<in>set (drop K ws). state (waiters s2 x) = WAITING"
    by blast
  with e cv1 wt show ?thesis by blast
qed

theorem C4_witness:
  "\<exists>s1 s2. enqueue env0 1 1 [11, 12, 13] st0 = Some s1
     \<and> signals env0 1 99 2 s1 = Some s2
     \<and> state_wakes (trace s2) = [11, 12]
     \<and> map (\<lambda>x. state (waiters s2 x)) [11, 12, 13] = [SIGNALED, SIGNALED, WAITING]
     \<and> c_tail (conds s2 1) = 13 \<and> c_head (conds s2 1) = 13"
proof -
  have "c_head (conds st0 1) = 0" "c_tail (conds st0 1) = 0" "c_lock (conds st0 1) = 0"
    "distinct [11, 12, 13 :: addr]" "0 \<notin> set [11, 12, 13 :: addr]"
    "2 \<le> length [11, 12, 13 :: addr]"
    by (simp_all add: fixture_defs)
  from C4_signal_fifo [OF this, of env0 1 99] obtain s1 s2 evs where
    e: "enqueue env0 1 1 [11, 12, 13] st0 = Some s1" and s: "signals env0 1 99 2 s1 = Some s2"
    and tr: "trace s2 = trace s1 @ evs" and sw: "state_wakes evs = take 2 [11, 12, 13]"
    and cl: "\<forall>x\<in>set (take 2 [11, 12, 13 :: addr]). state (waiters s2 x) = SIGNALED
               \<and> prev (waiters s2 x) = 0 \<and> next (waiters s2 x) = 0"
    and cv: "cv_list s2 1 (drop 2 [11, 12, 13])"
    and wa: "\<forall>x\<in>set (drop 2 [11, 12, 13 :: addr]). state (waiters s2 x) = WAITING"
    by blast
  have "map_option (state_wakes \<circ> trace) (enqueue env0 1 1 [11, 12, 13] st0) = Some []"
    by code_simp
  with e have "state_wakes (trace s1) = []" by simp
  with tr sw have "state_wakes (trace s2) = [11, 12]" by simp
  with e s cl cv wa show ?thesis
    by (auto simp: cv_list_def last0_def)
qed

subsection \<open>The signaler and the leavers\<close>

lemma notify_signaler_effect:
  assumes "notify (nd x node) = Some (Local r)"
  shows "locals (notify_signaler node x) r = wrap32 (locals x r - 1)"
    and "trace (notify_signaler node x)
           = trace x @ (if locals x r = 1 then [FutexWake (Local r) 1 1] else [])"
  using assms
  by (simp_all add: notify_signaler_def a_fetch_add_def wake_def note_atomic_def Let_def
      state_defs)

lemma unwait_leave_notifies:
  assumes "unwait_leave E node x = Some y"
  shows "\<exists>x1. y = notify_signaler node x1"
  using assms by (auto simp: unwait_leave_def Let_def bind_eq_Some_conv)

lemma signal_up_to_drain:
  assumes cv: "cv_list s c ws" and lk: "c_lock (conds s c) = 0"
  shows "\<exists>s5 q. private_cond_signal E c n r s
                   = signal_drain E r s5 \<bind> (\<lambda>s6. signal_wake q s6 \<bind> (\<lambda>s7. Some (0, s7)))
           \<and> locals s5 r
               = int (length (filter (\<lambda>x. state (waiters s x) \<noteq> WAITING)
                                 (take (walk_len (\<lambda>x. state (waiters s x)) n ws) ws)))
           \<and> (\<forall>x\<in>set (filter (\<lambda>x. state (waiters s x) \<noteq> WAITING)
                            (take (walk_len (\<lambda>x. state (waiters s x)) n ws) ws)).
                 notify (waiters s5 x) = Some (Local r))"
proof -
  define vs where "vs = take (walk_len (\<lambda>x. state (waiters s x)) n ws) ws"
  define lv where "lv = filter (\<lambda>x. state (waiters s x) \<noteq> WAITING) vs"
  from cv have di: "distinct ws" and dl: "dll (waiters s) 0 ws"
    and tl: "c_tail (conds s c) = hd0 ws"
    by (simp_all add: cv_list_def)
  define s0 where "s0 = wr (Local r) 0 s"
  define s1 where "s1 = note_atomic (C_lock c) (wr (C_lock c) 1 s0)"
  define s2 where "s2 = log (CvLoad c F_tail) s1"
  have l1: "lock E (C_lock c) s0 = Some s1"
    unfolding s1_def using lk by (intro lock_free) (simp add: s0_def state_defs)
  have w2: "waiters s2 = waiters s" and c2: "c_tail (conds s2 c) = hd0 ws"
    and r2: "locals s2 r = 0"
    using tl by (simp_all add: s2_def s1_def s0_def state_defs)
  have dl2: "dll (waiters s2) 0 ws" unfolding w2 by (rule dl)
  define s3 where "s3 = walked r vs s2"
  obtain p q where walk: "signal_walk r (hd0 ws) n 0 s2 = Some (p, q, s3)"
    unfolding signal_walk_dll [OF dl2 di] s3_def vs_def w2 by simp
  have l3: "locals s3 r = int (length lv)"
    unfolding s3_def walked_def lv_def w2 using r2 by simp
  have n3: "\<forall>x\<in>set lv. notify (waiters s3 x) = Some (Local r)"
    unfolding s3_def walked_def lv_def w2 by simp
  define s5 where "s5 = unlock (C_lock c) (signal_split c p s3)"
  have w5: "waiters s5 = waiters (signal_split c p s3)"
    and l5: "locals s5 = locals (signal_split c p s3)"
    by (simp_all add: s5_def unlock_def a_swap_def wake_def note_atomic_def Let_def state_defs)
  have n5: "notify (waiters s5 x) = notify (waiters s3 x)" for x
    unfolding w5 by (rule split_field_eq(3)) (rule signal_split_frame(1))
  have r1: "private_cond_signal E c n r s
              = signal_drain E r s5 \<bind> (\<lambda>s6. signal_wake q s6 \<bind> (\<lambda>s7. Some (0, s7)))"
    unfolding private_cond_signal_def Let_def s0_def [symmetric]
    using l1 walk c2
    by (simp add: s2_def [symmetric] s5_def [symmetric])
  have r2': "locals s5 r = int (length lv)"
    unfolding l5 signal_split_frame(3) by (rule l3)
  have r3: "\<forall>x\<in>set lv. notify (waiters s5 x) = Some (Local r)"
    unfolding n5 by (rule n3)
  show ?thesis
    unfolding vs_def [symmetric] lv_def [symmetric]
    by (intro exI [of _ s5] exI [of _ q] conjI r1 r2' r3)
qed

text \<open>
  Claim C8: \<open>signal(cv, n)\<close> never returns while its leaver counter \<open>ref\<close> is positive.  On a
  list \<open>ws\<close> (the lock of the condition variable being free), the walk leaves in \<open>ref\<close> the
  number of visited nodes that were not \<open>WAITING\<close>, each of which has \<open>notify = &ref\<close>; the
  rest of the call is the wait for \<open>ref\<close> followed by the wake phase and the return, so that
  the call returns only from a store in which \<open>ref\<close> is 0, and does not return when a leaver
  was seen and nobody ever writes \<open>ref\<close>.  A leaver on path A of \<open>unwait\<close> ends with the
  notification, which decrements the counter its \<open>notify\<close> points to and wakes the signaler
  when the old value was 1.
\<close>

theorem C8_signal_waits_for_leavers:
  assumes cv: "cv_list s c ws" and lk: "c_lock (conds s c) = 0"
  shows "(\<exists>s5 q.
            private_cond_signal E c n r s
              = signal_drain E r s5 \<bind> (\<lambda>s6. signal_wake q s6 \<bind> (\<lambda>s7. Some (0, s7)))
          \<and> locals s5 r
               = int (length (filter (\<lambda>x. state (waiters s x) \<noteq> WAITING)
                                 (take (walk_len (\<lambda>x. state (waiters s x)) n ws) ws)))
          \<and> (\<forall>x\<in>set (filter (\<lambda>x. state (waiters s x) \<noteq> WAITING)
                            (take (walk_len (\<lambda>x. state (waiters s x)) n ws) ws)).
                 notify (waiters s5 x) = Some (Local r))
          \<and> (\<forall>v s'. private_cond_signal E c n r s = Some (v, s') \<longrightarrow>
                 (\<exists>s6. signal_drain E r s5 = Some s6 \<and> locals s6 r = 0
                        \<and> signal_wake q s6 = Some s' \<and> v = 0))
          \<and> (locals s5 r \<noteq> 0 \<and> (\<forall>k h. locals (interfere E k h) r = locals h r) \<longrightarrow>
                 private_cond_signal E c n r s = None))
    \<and> (\<forall>node x y. unwait_leave E node x = Some y \<longrightarrow> (\<exists>x1. y = notify_signaler node x1))
    \<and> (\<forall>node x. notify (nd x node) = Some (Local r) \<longrightarrow>
           locals (notify_signaler node x) r = wrap32 (locals x r - 1)
           \<and> trace (notify_signaler node x)
               = trace x @ (if locals x r = 1 then [FutexWake (Local r) 1 1] else []))"
proof -
  from signal_up_to_drain [OF cv lk, of E n r] obtain s5 q where
    eq: "private_cond_signal E c n r s
           = signal_drain E r s5 \<bind> (\<lambda>s6. signal_wake q s6 \<bind> (\<lambda>s7. Some (0, s7)))"
    and cnt: "locals s5 r
               = int (length (filter (\<lambda>x. state (waiters s x) \<noteq> WAITING)
                                 (take (walk_len (\<lambda>x. state (waiters s x)) n ws) ws)))"
    and nt: "\<forall>x\<in>set (filter (\<lambda>x. state (waiters s x) \<noteq> WAITING)
                            (take (walk_len (\<lambda>x. state (waiters s x)) n ws) ws)).
                 notify (waiters s5 x) = Some (Local r)"
    by blast
  have ret: "\<forall>v s'. private_cond_signal E c n r s = Some (v, s') \<longrightarrow>
                 (\<exists>s6. signal_drain E r s5 = Some s6 \<and> locals s6 r = 0
                        \<and> signal_wake q s6 = Some s' \<and> v = 0)"
  proof (intro allI impI)
    fix v s'
    assume "private_cond_signal E c n r s = Some (v, s')"
    with eq have "signal_drain E r s5 \<bind> (\<lambda>s6. signal_wake q s6 \<bind> (\<lambda>s7. Some (0, s7)))
                    = Some (v, s')"
      by simp
    then obtain s6 where d: "signal_drain E r s5 = Some s6"
      and w: "signal_wake q s6 = Some s'" and v: "v = 0"
      by (auto simp: bind_eq_Some_conv)
    from signal_drain_exit [OF d] have "locals s6 r = 0" by simp
    with d w v show "\<exists>s6. signal_drain E r s5 = Some s6 \<and> locals s6 r = 0
                        \<and> signal_wake q s6 = Some s' \<and> v = 0"
      by blast
  qed
  have stuck: "locals s5 r \<noteq> 0 \<and> (\<forall>k h. locals (interfere E k h) r = locals h r) \<longrightarrow>
                 private_cond_signal E c n r s = None"
  proof
    assume a: "locals s5 r \<noteq> 0 \<and> (\<forall>k h. locals (interfere E k h) r = locals h r)"
    then have "signal_drain E r s5 = None"
      by (intro signal_drain_stuck) simp_all
    with eq show "private_cond_signal E c n r s = None" by simp
  qed
  have main: "\<exists>s5 q.
            private_cond_signal E c n r s
              = signal_drain E r s5 \<bind> (\<lambda>s6. signal_wake q s6 \<bind> (\<lambda>s7. Some (0, s7)))
          \<and> locals s5 r
               = int (length (filter (\<lambda>x. state (waiters s x) \<noteq> WAITING)
                                 (take (walk_len (\<lambda>x. state (waiters s x)) n ws) ws)))
          \<and> (\<forall>x\<in>set (filter (\<lambda>x. state (waiters s x) \<noteq> WAITING)
                            (take (walk_len (\<lambda>x. state (waiters s x)) n ws) ws)).
                 notify (waiters s5 x) = Some (Local r))
          \<and> (\<forall>v s'. private_cond_signal E c n r s = Some (v, s') \<longrightarrow>
                 (\<exists>s6. signal_drain E r s5 = Some s6 \<and> locals s6 r = 0
                        \<and> signal_wake q s6 = Some s' \<and> v = 0))
          \<and> (locals s5 r \<noteq> 0 \<and> (\<forall>k h. locals (interfere E k h) r = locals h r) \<longrightarrow>
                 private_cond_signal E c n r s = None)"
    by (intro exI [of _ s5] exI [of _ q] conjI eq cnt nt ret stuck)
  have leave: "\<forall>node x y. unwait_leave E node x = Some y \<longrightarrow> (\<exists>x1. y = notify_signaler node x1)"
    by (intro allI impI) (rule unwait_leave_notifies)
  have dec: "\<forall>node x. notify (nd x node) = Some (Local r) \<longrightarrow>
           locals (notify_signaler node x) r = wrap32 (locals x r - 1)
           \<and> trace (notify_signaler node x)
               = trace x @ (if locals x r = 1 then [FutexWake (Local r) 1 1] else [])"
    by (intro allI impI conjI notify_signaler_effect)
  from main leave dec show ?thesis by (intro conjI)
qed

theorem C8_witness:
  "\<exists>s'. private_cond_signal env_leaver 1 1 99 st_leaving = Some (0, s')
     \<and> locals s' 99 = 0
     \<and> drop (length (trace st_leaving)) (trace s')
         = [CvAtomic 1 F_lock, CvLoad 1 F_tail, CvStore 1 F_head, CvStore 1 F_tail,
            CvAtomic 1 F_lock, FutexWait (Local 99) 1 1, FutexWake (W_state 12) 1 1]
     \<and> private_cond_signal env0 1 1 99 st_leaving = None"
proof -
  have cv: "cv_list st_leaving 1 [11, 12]" by code_simp
  have lk: "c_lock (conds st_leaving 1) = 0" by code_simp
  have lv: "state (waiters st_leaving 11) \<noteq> WAITING" by code_simp
  have "map_option (\<lambda>x. (fst x, locals (snd x) 99,
                          drop (length (trace st_leaving)) (trace (snd x))))
          (private_cond_signal env_leaver 1 1 99 st_leaving)
        = Some (0, 0, [CvAtomic 1 F_lock, CvLoad 1 F_tail, CvStore 1 F_head, CvStore 1 F_tail,
                       CvAtomic 1 F_lock, FutexWait (Local 99) 1 1, FutexWake (W_state 12) 1 1])"
    by code_simp
  then obtain s' where run: "private_cond_signal env_leaver 1 1 99 st_leaving = Some (0, s')"
    and l: "locals s' 99 = 0"
    and tr: "drop (length (trace st_leaving)) (trace s')
               = [CvAtomic 1 F_lock, CvLoad 1 F_tail, CvStore 1 F_head, CvStore 1 F_tail,
                  CvAtomic 1 F_lock, FutexWait (Local 99) 1 1, FutexWake (W_state 12) 1 1]"
    by auto
  have "private_cond_signal env0 1 1 99 st_leaving = None"
    using C8_signal_waits_for_leavers [OF cv lk, of env0 1 99, THEN conjunct1] lv
    by (elim exE conjE) (simp add: env0_def)
  with run l tr show ?thesis by simp
qed

subsection \<open>The successor of a departing signaled waiter\<close>

lemma hd0_filter_dropWhile: "hd0 (filter P xs) = hd0 (dropWhile (\<lambda>x. \<not> P x) xs)"
  by (induction xs) auto

lemma hd0_append: "xs \<noteq> [] \<Longrightarrow> hd0 (xs @ ys) = hd0 xs"
  by (cases xs) simp_all

lemma find_tail_dseg:
  assumes "dseg (waiters s) 0 (xs @ [y]) pv"
  shows "find_tail s y = Some (hd (xs @ [y]))"
  using assms
proof (induction xs arbitrary: y pv rule: rev_induct)
  case Nil
  then show ?case by (subst find_tail.simps) (simp add: nd_def)
next
  case (snoc x xs)
  from snoc.prems have a: "dseg (waiters s) 0 (xs @ [x]) y"
    and b: "dseg (waiters s) x [y] pv"
    using dseg_append [of "waiters s" 0 "xs @ [x]" "[y]" pv] by simp_all
  from a have x0: "x \<noteq> 0" using dseg_append [of "waiters s" 0 xs "[x]" y] by simp
  from b have ny: "next (waiters s y) = x" by simp
  have "find_tail s y = find_tail s x"
    using ny x0 by (subst find_tail.simps) (simp add: nd_def)
  also have "\<dots> = Some (hd (xs @ [x]))" using a by (rule snoc.IH)
  finally show ?case by (cases xs) simp_all
qed

lemma skip_requeued_dseg:
  assumes "dseg (waiters s) nx xs 0"
  shows "skip_requeued s (hd0 xs) = Some (hd0 (dropWhile (\<lambda>x. requeued (waiters s x) \<noteq> 0) xs))"
  using assms
proof (induction xs arbitrary: nx)
  case Nil
  show ?case by (subst skip_requeued.simps) simp
next
  case (Cons x xs)
  from Cons.prems have x0: "x \<noteq> 0" and tl: "dseg (waiters s) x xs 0"
    by simp_all
  have px: "prev (waiters s x) = hd0 xs"
    using Cons.prems by (cases xs) simp_all
  show ?case
  proof (cases "requeued (waiters s x) \<noteq> 0")
    case True
    then have "skip_requeued s x = skip_requeued s (hd0 xs)"
      using x0 px by (subst skip_requeued.simps) (simp add: nd_def)
    with Cons.IH [OF tl] True show ?thesis by simp
  next
    case False
    then show ?thesis by (subst skip_requeued.simps) (simp add: nd_def)
  qed
qed

lemma requeued_oldest_tail:
  assumes "requeued_oldest W (x # xs)" and "requeued (W x) = 0" and "y \<in> set xs"
  shows "requeued (W y) = 0"
proof -
  from assms(2) have "dropWhile (\<lambda>x. requeued (W x) \<noteq> 0) (x # xs) = x # xs" by simp
  with assms(1) have "\<forall>z\<in>set (x # xs). requeued (W z) = 0"
    unfolding requeued_oldest_def by (simp only:)
  with assms(3) show ?thesis by simp
qed

lemma requeued_oldest_Cons:
  assumes "requeued_oldest W (x # xs)" and "requeued (W x) \<noteq> 0"
  shows "requeued_oldest W xs"
proof -
  from assms(2) have "dropWhile (\<lambda>x. requeued (W x) \<noteq> 0) (x # xs)
                        = dropWhile (\<lambda>x. requeued (W x) \<noteq> 0) xs" by simp
  with assms(1) show ?thesis unfolding requeued_oldest_def by (simp only:)
qed

lemma find_successor_spec:
  assumes dl: "dll (waiters s) 0 qs" and di: "distinct qs" and mem: "node \<in> set qs"
    and inv: "requeued_oldest (waiters s) qs"
  shows "find_successor s node = Some (successor_spec (waiters s) qs node)"
proof -
  let ?W = "waiters s"
  let ?rq = "\<lambda>x. requeued (?W x) \<noteq> 0"
  from mem obtain pre post where qs: "qs = pre @ node # post"
    by (auto simp: in_set_conv_decomp)
  from dl have ds: "dseg ?W 0 qs 0" by (simp add: dll_dseg)
  from ds qs have dpre: "dseg ?W 0 (pre @ [node]) (hd0 post)"
    and dpost: "dseg ?W node post 0"
    using dseg_append [of ?W 0 "pre @ [node]" post 0] by (simp_all add: hd0_def)
  have n0: "node \<noteq> 0" using dll_nonzero [OF dl] mem by (cases "node = 0") auto
  have pn: "prev (?W node) = hd0 post"
    using dpre dseg_append [of ?W 0 pre "[node]" "hd0 post"] by simp
  have tail: "find_tail s node = Some (hd qs)"
    using find_tail_dseg [OF dpre] qs by (cases pre) simp_all
  have npost: "node \<notin> set post" and npre: "node \<notin> set pre" using di qs by auto
  \<comment> \<open>the first node behind \<open>node\<close> that is not requeued\<close>
  have after: "skip_requeued s (hd0 post) = Some (hd0 (dropWhile ?rq post))"
    using dpost by (rule skip_requeued_dseg)
  have spec_post: "hd0 (filter (\<lambda>x. x \<noteq> node \<and> requeued (?W x) = 0) post)
                     = hd0 (dropWhile ?rq post)"
  proof -
    have "filter (\<lambda>x. x \<noteq> node \<and> requeued (?W x) = 0) post
            = filter (\<lambda>x. requeued (?W x) = 0) post"
      using npost by (intro filter_cong) auto
    then show ?thesis by (simp add: hd0_filter_dropWhile)
  qed
  have nz_post: "hd0 (dropWhile ?rq post) \<noteq> node"
  proof (cases "dropWhile ?rq post")
    case Nil
    show ?thesis unfolding Nil using n0 by simp
  next
    case (Cons y ys)
    then have "y \<in> set post" by (metis list.set_intros(1) set_dropWhileD)
    with npost show ?thesis unfolding Cons by auto
  qed
  show ?thesis
  proof (cases pre)
    case Nil
    \<comment> \<open>\<open>node\<close> is the tail: the search starts behind it\<close>
    with qs tail have t: "find_tail s node = Some node" by simp
    have "successor_spec ?W qs node = hd0 (dropWhile ?rq post)"
      unfolding successor_spec_def qs Nil using spec_post by simp
    with t after nz_post pn show ?thesis
      by (simp add: find_successor_def nd_def)
  next
    case (Cons t pre')
    with qs tail have t: "find_tail s node = Some t" and tn: "t \<noteq> node"
      using npre by auto
    have sk: "skip_requeued s t = Some (hd0 (dropWhile ?rq qs))"
      using skip_requeued_dseg [OF ds] qs Cons by simp
    show ?thesis
    proof (cases "\<forall>x\<in>set pre. ?rq x")
      case False
      \<comment> \<open>an older node is not requeued: it is the successor\<close>
      then obtain z where "z \<in> set pre" and "\<not> ?rq z" by auto
      then have dw: "dropWhile ?rq qs = dropWhile ?rq pre @ node # post"
        unfolding qs by (rule dropWhile_append1)
      from False have ne: "dropWhile ?rq pre \<noteq> []"
        unfolding dropWhile_eq_Nil_conv .
      then obtain y ys where y: "dropWhile ?rq pre = y # ys"
        by (cases "dropWhile ?rq pre") simp_all
      have "y \<in> set (dropWhile ?rq pre)" unfolding y by simp
      then have ypre: "y \<in> set pre" by (rule set_dropWhileD)
      have ynr: "requeued (?W y) = 0" using hd_dropWhile [OF ne] unfolding y by simp
      have yn: "y \<noteq> node" using ypre npre by auto
      have fy: "filter (\<lambda>x. requeued (?W x) = 0) pre \<noteq> []"
        using ypre ynr unfolding filter_empty_conv by blast
      have "successor_spec ?W qs node
              = hd0 (filter (\<lambda>x. x \<noteq> node \<and> requeued (?W x) = 0) pre
                     @ filter (\<lambda>x. x \<noteq> node \<and> requeued (?W x) = 0) (node # post))"
        unfolding successor_spec_def qs filter_append ..
      also have "filter (\<lambda>x. x \<noteq> node \<and> requeued (?W x) = 0) pre
                   = filter (\<lambda>x. requeued (?W x) = 0) pre"
        using npre by (intro filter_cong) auto
      also have "hd0 (filter (\<lambda>x. requeued (?W x) = 0) pre
                   @ filter (\<lambda>x. x \<noteq> node \<and> requeued (?W x) = 0) (node # post))
                   = hd0 (filter (\<lambda>x. requeued (?W x) = 0) pre)"
        using fy by (rule hd0_append)
      also have "\<dots> = hd0 (dropWhile ?rq pre)" by (rule hd0_filter_dropWhile)
      also have "\<dots> = y" unfolding y by simp
      finally have sp: "successor_spec ?W qs node = y" .
      have h: "hd0 (dropWhile ?rq qs) = y" unfolding dw y by simp
      have "find_successor s node = Some y"
        unfolding find_successor_def t using tn yn by (simp add: sk h)
      then show ?thesis unfolding sp .
    next
      case True
      \<comment> \<open>all older nodes are requeued\<close>
      then have dw: "dropWhile ?rq qs = dropWhile ?rq (node # post)"
        unfolding qs by (simp add: dropWhile_append2)
      have fpre: "filter (\<lambda>x. x \<noteq> node \<and> requeued (?W x) = 0) pre = []"
        using True by (auto simp: filter_empty_conv)
      have spec: "successor_spec ?W qs node = hd0 (dropWhile ?rq post)"
        unfolding successor_spec_def qs using fpre spec_post by simp
      show ?thesis
      proof (cases "?rq node")
        case True
        with dw have "hd0 (dropWhile ?rq qs) = hd0 (dropWhile ?rq post)" by simp
        with t tn sk nz_post spec show ?thesis by (simp add: find_successor_def)
      next
        case False
        \<comment> \<open>the search stops at \<open>node\<close> itself and takes the node behind it, which the
            invariant says is not requeued\<close>
        with dw have h: "hd0 (dropWhile ?rq qs) = node" by simp
        have nr: "requeued (?W node) = 0" using False by simp
        have ro: "requeued_oldest ?W (node # post)"
          using inv unfolding requeued_oldest_def dw .
        have "\<forall>y\<in>set post. requeued (?W y) = 0"
        proof
          fix y assume "y \<in> set post"
          with ro nr show "requeued (?W y) = 0" by (rule requeued_oldest_tail)
        qed
        then have "dropWhile ?rq post = post" by (cases post) auto
        with spec have "successor_spec ?W qs node = hd0 post" by simp
        with t tn sk h pn show ?thesis by (simp add: find_successor_def nd_def)
      qed
    qed
  qed
qed

lemma unlink_self_frame:
  "trace (unlink_self node s) = trace s" "mutexes (unlink_self node s) = mutexes s"
  "tick (unlink_self node s) = tick s"
  "requeued (waiters (unlink_self node s) x) = requeued (waiters s x)"
  by (simp_all add: unlink_self_def Let_def state_defs)

lemma requeue_successor_effect:
  "trace (requeue_successor E node p s) =
     trace s @ SysFutex (W_state p) (FUTEX_REQUEUE OR 128)
                 (m_type (mutexes s (mutex (waiters s node))) AND 128) 1
                 (M_lock (mutex (waiters s node)))
       # (if futex_result E (tick s) = - EINVAL
          then [SysFutex (W_state p) FUTEX_REQUEUE 0 1 (M_lock (mutex (waiters s node)))]
          else [])"
  "requeued (waiters (requeue_successor E node p s) x)
     = (if x = p then 1 else requeued (waiters s x))"
  "m_waiters (mutexes (requeue_successor E node p s) (mutex (waiters s node)))
     = wrap32 (m_waiters (mutexes s (mutex (waiters s node))) + 1)"
  "next (waiters (requeue_successor E node p s) x) = next (waiters s x)"
  "prev (waiters (requeue_successor E node p s) x) = prev (waiters s x)"
  by (simp_all add: requeue_successor_def syscall_futex_def Let_def atomic_defs state_defs)

text \<open>Unlinking a member of a well-formed list leaves the list of the other nodes.\<close>

lemma unlink_self_waiters:
  "waiters (unlink_self node s) =
     (let W = waiters s;
          W1 = (if next (W node) \<noteq> 0
                then W(next (W node) := (W (next (W node)))\<lparr>prev := prev (W node)\<rparr>) else W)
      in if prev (W1 node) \<noteq> 0
         then W1(prev (W1 node) := (W1 (prev (W1 node)))\<lparr>next := next (W1 node)\<rparr>) else W1)"
  by (simp add: unlink_self_def Let_def state_defs)

lemma unlink_self_dll:
  assumes dl: "dll (waiters s) 0 qs" and di: "distinct qs" and mem: "node \<in> set qs"
  shows "dll (waiters (unlink_self node s)) 0 (remove1 node qs)"
proof -
  define W where "W = waiters s"
  from mem obtain pre post where qs: "qs = pre @ node # post"
    by (auto simp: in_set_conv_decomp)
  have npre: "node \<notin> set pre" and npost: "node \<notin> set post"
    and dpre: "distinct pre" and dpost: "distinct post" and disj: "set pre \<inter> set post = {}"
    using di unfolding qs by auto
  have rm: "remove1 node qs = pre @ post"
    unfolding qs using npre by (simp add: remove1_append)
  have nz: "0 \<notin> set qs" using dl by (rule dll_nonzero)
  from dl have ds: "dseg W 0 (pre @ node # post) 0" unfolding W_def qs dll_dseg .
  then have A: "dseg W 0 pre node"
    and B: "dseg W (if pre = [] then 0 else last pre) (node # post) 0"
    unfolding dseg_append by simp_all
  from B have nn: "next (W node) = last0 pre" and pn: "prev (W node) = hd0 post"
    and C: "dseg W node post 0"
    by (simp_all add: last0_def hd0_def)
  define W1 where "W1 = (if next (W node) \<noteq> 0
                then W(next (W node) := (W (next (W node)))\<lparr>prev := prev (W node)\<rparr>) else W)"
  define W2 where "W2 = (if prev (W1 node) \<noteq> 0
         then W1(prev (W1 node) := (W1 (prev (W1 node)))\<lparr>next := next (W1 node)\<rparr>) else W1)"
  have w: "waiters (unlink_self node s) = W2"
    unfolding unlink_self_waiters Let_def W2_def W1_def W_def ..
  \<comment> \<open>the older neighbour gets the newer one as its \<open>prev\<close>\<close>
  have A1: "dseg W1 0 pre (hd0 post)" and C1: "dseg W1 node post 0"
    and n1: "next (W1 node) = last0 pre" and p1: "prev (W1 node) = hd0 post"
  proof -
    show "dseg W1 0 pre (hd0 post)"
    proof (cases "pre = []")
      case True
      then show ?thesis by simp
    next
      case False
      then have "last pre \<in> set pre" by simp
      then have "last pre \<noteq> 0" using nz unfolding qs by (cases "last pre = 0") auto
      then have "W1 = W(last pre := (W (last pre))\<lparr>prev := hd0 post\<rparr>)"
        unfolding W1_def nn pn using False by (simp add: last0_def)
      then show ?thesis using dseg_set_last_prev [OF A dpre False] by simp
    qed
    have out: "next (W1 x) = next (W x) \<and> prev (W1 x) = prev (W x)" if "x \<notin> set pre" for x
    proof (cases "pre = []")
      case True
      then show ?thesis unfolding W1_def nn by simp
    next
      case False
      then have "last pre \<in> set pre" by simp
      with that have "x \<noteq> last pre" by auto
      then show ?thesis unfolding W1_def nn using False by (simp add: last0_def)
    qed
    have "dseg W1 node post 0 = dseg W node post 0"
      using disj by (intro dseg_frame out) auto
    with C show "dseg W1 node post 0" by simp
    from out [OF npre] nn pn show "next (W1 node) = last0 pre" and "prev (W1 node) = hd0 post"
      by simp_all
  qed
  \<comment> \<open>the newer neighbour gets the older one as its \<open>next\<close>\<close>
  have A2: "dseg W2 0 pre (hd0 post)" and C2: "dseg W2 (last0 pre) post 0"
  proof -
    show "dseg W2 (last0 pre) post 0"
    proof (cases post)
      case Nil
      then show ?thesis by simp
    next
      case (Cons y ys)
      then have "y \<in> set qs" unfolding qs by simp
      with nz have "y \<noteq> 0" by (cases "y = 0") auto
      then have "W2 = W1(y := (W1 y)\<lparr>next := last0 pre\<rparr>)"
        unfolding W2_def p1 n1 Cons by simp
      then show ?thesis
        using dseg_set_first_next [of W1 node y ys 0 "last0 pre"] C1 dpost unfolding Cons by simp
    qed
    have out: "next (W2 x) = next (W1 x) \<and> prev (W2 x) = prev (W1 x)" if "x \<notin> set post" for x
    proof (cases post)
      case Nil
      then show ?thesis unfolding W2_def p1 by simp
    next
      case (Cons y ys)
      with that have "x \<noteq> y" by auto
      then show ?thesis unfolding W2_def p1 Cons by simp
    qed
    have "dseg W2 0 pre (hd0 post) = dseg W1 0 pre (hd0 post)"
      using disj by (intro dseg_frame out) auto
    with A1 show "dseg W2 0 pre (hd0 post)" by simp
  qed
  have "dseg W2 0 (pre @ post) 0"
    unfolding dseg_append using A2 C2 by (simp add: hd0_def last0_def)
  then show ?thesis unfolding w rm dll_dseg .
qed

text \<open>The nodes marked requeued stay the oldest ones when a node leaves and its successor
  is marked.\<close>

lemma requeued_oldestI:
  assumes "\<forall>x\<in>set R. requeued (W x) \<noteq> 0" and "\<forall>x\<in>set N. requeued (W x) = 0"
  shows "requeued_oldest W (R @ N)"
proof -
  have eq: "dropWhile (\<lambda>x. requeued (W x) \<noteq> 0) (R @ N)
              = dropWhile (\<lambda>x. requeued (W x) \<noteq> 0) N"
    using assms(1) by (intro dropWhile_append2) blast
  have sub: "set (dropWhile (\<lambda>x. requeued (W x) \<noteq> 0) N) \<subseteq> set N"
    by (blast dest: set_dropWhileD)
  show ?thesis unfolding requeued_oldest_def eq using sub assms(2) by blast
qed

lemma requeued_oldestD:
  assumes "requeued_oldest W qs"
  shows "\<exists>R N. qs = R @ N \<and> (\<forall>x\<in>set R. requeued (W x) \<noteq> 0)
                 \<and> (\<forall>x\<in>set N. requeued (W x) = 0)"
proof (intro exI conjI)
  show "qs = takeWhile (\<lambda>x. requeued (W x) \<noteq> 0) qs @ dropWhile (\<lambda>x. requeued (W x) \<noteq> 0) qs"
    by simp
  show "\<forall>x\<in>set (takeWhile (\<lambda>x. requeued (W x) \<noteq> 0) qs). requeued (W x) \<noteq> 0"
    by (blast dest: set_takeWhileD)
  show "\<forall>x\<in>set (dropWhile (\<lambda>x. requeued (W x) \<noteq> 0) qs). requeued (W x) = 0"
    using assms unfolding requeued_oldest_def .
qed

lemma filter_neq_removeAll: "filter (\<lambda>x. x \<noteq> a) xs = removeAll a xs"
  by (induction xs) auto

lemma requeued_oldest_step:
  assumes inv: "requeued_oldest W qs" and di: "distinct qs" and nz: "(0 :: addr) \<notin> set qs"
    and W': "\<And>x. x \<in> set qs \<Longrightarrow>
               requeued (W' x) = (if x = successor_spec W qs node then 1 else requeued (W x))"
  shows "requeued_oldest W' (remove1 node qs)"
proof -
  from requeued_oldestD [OF inv] obtain R N where qs: "qs = R @ N"
    and R: "\<forall>x\<in>set R. requeued (W x) \<noteq> 0" and N: "\<forall>x\<in>set N. requeued (W x) = 0"
    by blast
  have "remove1 node qs = removeAll node qs"
    using di by (rule distinct_remove1_removeAll)
  then have rm: "remove1 node qs = removeAll node R @ removeAll node N"
    unfolding qs by simp
  have dN: "distinct (removeAll node N)" and disj: "set R \<inter> set N = {}"
    using di unfolding qs by (simp_all add: distinct_removeAll)
  have fR: "filter (\<lambda>x. x \<noteq> node \<and> requeued (W x) = 0) R = []"
    using R unfolding filter_empty_conv by blast
  have "filter (\<lambda>x. x \<noteq> node \<and> requeued (W x) = 0) N = filter (\<lambda>x. x \<noteq> node) N"
    using N by (intro filter_cong) auto
  then have fN: "filter (\<lambda>x. x \<noteq> node \<and> requeued (W x) = 0) N = removeAll node N"
    unfolding filter_neq_removeAll .
  have p: "successor_spec W qs node = hd0 (removeAll node N)"
    unfolding successor_spec_def qs filter_append fR fN by simp
  show ?thesis
  proof (cases "removeAll node N")
    case Nil
    have "\<forall>x\<in>set (removeAll node R). requeued (W' x) \<noteq> 0"
    proof
      fix x assume "x \<in> set (removeAll node R)"
      then have x: "x \<in> set R" by simp
      then have "x \<in> set qs" unfolding qs by simp
      moreover from this nz have "x \<noteq> 0" by (cases "x = 0") auto
      ultimately have "requeued (W' x) = requeued (W x)"
        using W' [of x] unfolding p Nil by simp
      with R x show "requeued (W' x) \<noteq> 0" by simp
    qed
    moreover have "\<forall>x\<in>set ([] :: addr list). requeued (W' x) = 0" by simp
    ultimately have "requeued_oldest W' (removeAll node R @ [])" by (rule requeued_oldestI)
    then show ?thesis unfolding rm Nil .
  next
    case (Cons n M)
    have pn: "successor_spec W qs node = n" unfolding p Cons by simp
    have "n \<in> set (removeAll node N)" unfolding Cons by simp
    then have nN: "n \<in> set N" by simp
    then have nR: "n \<notin> set R" using disj by auto
    have nM: "n \<notin> set M" using dN unfolding Cons by simp
    have MN: "set M \<subseteq> set N"
    proof
      fix x assume "x \<in> set M"
      then have "x \<in> set (removeAll node N)" unfolding Cons by simp
      then show "x \<in> set N" by simp
    qed
    have a: "\<forall>x\<in>set (removeAll node R @ [n]). requeued (W' x) \<noteq> 0"
    proof
      fix x assume "x \<in> set (removeAll node R @ [n])"
      then consider "x = n" | "x \<in> set R" "x \<noteq> n" using nR by auto
      then show "requeued (W' x) \<noteq> 0"
      proof cases
        case 1
        then have "x \<in> set qs" using nN unfolding qs by simp
        from W' [OF this] 1 show ?thesis unfolding pn by simp
      next
        case 2
        then have "x \<in> set qs" unfolding qs by simp
        from W' [OF this] 2 R show ?thesis unfolding pn by simp
      qed
    qed
    have b: "\<forall>x\<in>set M. requeued (W' x) = 0"
    proof
      fix x assume x: "x \<in> set M"
      then have xN: "x \<in> set N" using MN by auto
      then have "x \<in> set qs" unfolding qs by simp
      moreover have "x \<noteq> n" using x nM by auto
      ultimately have "requeued (W' x) = requeued (W x)" using W' [of x] unfolding pn by simp
      with N xN show "requeued (W' x) = 0" by simp
    qed
    from a b have "requeued_oldest W' ((removeAll node R @ [n]) @ M)" by (rule requeued_oldestI)
    then show ?thesis unfolding rm Cons by simp
  qed
qed

lemma a_dec_waiters_effect:
  "waiters (a_dec (M_waiters m) s) = waiters s" "trace (a_dec (M_waiters m) s) = trace s"
  "tick (a_dec (M_waiters m) s) = tick s"
  "m_waiters (mutexes (a_dec (M_waiters m) s) m) = wrap32 (m_waiters (mutexes s m) - 1)"
  "m_type (mutexes (a_dec (M_waiters m) s) m') = m_type (mutexes s m')"
  by (simp_all add: atomic_defs state_defs)

text \<open>
  Claim C5, as far as it holds.  A signaled waiter that has taken its barrier goes on in
  path B of \<open>unwait\<close> (lines 111 to 136) on the detached list \<open>qs\<close> (oldest first), of which
  its node is a member and in which the nodes already requeued are the oldest ones.  The
  code then selects the node that the specification describes; if there is none it issues
  no futex call; if there is one, it sets the \<open>requeued\<close> flag of that node, increments the
  waiters count of the mutex (after the decrement of line 115, if the node itself had been
  requeued), and calls \<open>FUTEX_REQUEUE|128\<close> from the state word of the successor to the lock
  word of the mutex with requeue count 1 and the wake count \<open>m_type & 128\<close>: 0 for a private
  mutex, 128 for a process-shared one.  If, and only if, that call returns \<open>-EINVAL\<close>, the
  call is repeated as a plain \<open>FUTEX_REQUEUE\<close> with wake count 0 and requeue count 1.
  These are the only futex operations.  The node is then unlinked: the list of the other
  nodes is well formed, and the nodes marked requeued are again its oldest ones.
\<close>

theorem C5_requeue_successor:
  assumes dl: "dll (waiters s) 0 qs" and di: "distinct qs" and mem: "node \<in> set qs"
    and inv: "requeued_oldest (waiters s) qs"
  shows "\<exists>s'. unwait_requeue E node s = Some s' \<and>
     (let p = successor_spec (waiters s) qs node;
          m = mutex (waiters s node);
          w1 = (if requeued (waiters s node) \<noteq> 0 then wrap32 (m_waiters (mutexes s m) - 1)
                else m_waiters (mutexes s m))
      in (p = 0 \<longrightarrow> trace s' = trace s \<and> m_waiters (mutexes s' m) = w1
                  \<and> (\<forall>x. requeued (waiters s' x) = requeued (waiters s x)))
       \<and> (p \<noteq> 0 \<longrightarrow>
            requeued (waiters s' p) = 1
          \<and> (\<forall>x. x \<noteq> p \<longrightarrow> requeued (waiters s' x) = requeued (waiters s x))
          \<and> m_waiters (mutexes s' m) = wrap32 (w1 + 1)
          \<and> trace s' = trace s
               @ SysFutex (W_state p) (FUTEX_REQUEUE OR 128) (m_type (mutexes s m) AND 128) 1
                   (M_lock m)
               # (if futex_result E (tick s) = - EINVAL
                  then [SysFutex (W_state p) FUTEX_REQUEUE 0 1 (M_lock m)] else [])))
     \<and> dll (waiters s') 0 (remove1 node qs)
     \<and> requeued_oldest (waiters s') (remove1 node qs)"
proof -
  define m where "m = mutex (waiters s node)"
  define s1 where "s1 = (if requeued (nd s node) \<noteq> 0 then a_dec (M_waiters m) s else s)"
  define p where "p = successor_spec (waiters s) qs node"
  define w1 where "w1 = (if requeued (waiters s node) \<noteq> 0
                         then wrap32 (m_waiters (mutexes s m) - 1) else m_waiters (mutexes s m))"
  have w: "waiters s1 = waiters s" and t: "trace s1 = trace s" and k: "tick s1 = tick s"
    and mw: "m_waiters (mutexes s1 m) = w1" and mt: "m_type (mutexes s1 m) = m_type (mutexes s m)"
    unfolding s1_def w1_def by (simp_all add: a_dec_waiters_effect nd_def)
  have "find_successor s1 node = Some (successor_spec (waiters s1) qs node)"
    using dl di mem inv unfolding w [symmetric] by (rule find_successor_spec)
  then have fs: "find_successor s1 node = Some p" unfolding w p_def .
  define s' where "s' = unlink_self node (if p \<noteq> 0 then requeue_successor E node p s1 else s1)"
  have run: "unwait_requeue E node s = Some s'"
    unfolding unwait_requeue_def Let_def s'_def
    using fs unfolding s1_def m_def nd_def by simp
  have none: "p = 0 \<longrightarrow> trace s' = trace s \<and> m_waiters (mutexes s' m) = w1
                \<and> (\<forall>x. requeued (waiters s' x) = requeued (waiters s x))"
    unfolding s'_def by (simp add: unlink_self_frame t mw w)
  have some: "p \<noteq> 0 \<longrightarrow> requeued (waiters s' p) = 1
          \<and> (\<forall>x. x \<noteq> p \<longrightarrow> requeued (waiters s' x) = requeued (waiters s x))
          \<and> m_waiters (mutexes s' m) = wrap32 (w1 + 1)
          \<and> trace s' = trace s
               @ SysFutex (W_state p) (FUTEX_REQUEUE OR 128) (m_type (mutexes s m) AND 128) 1
                   (M_lock m)
               # (if futex_result E (tick s) = - EINVAL
                  then [SysFutex (W_state p) FUTEX_REQUEUE 0 1 (M_lock m)] else [])"
  proof
    assume p0: "p \<noteq> 0"
    have m1: "mutex (waiters s1 node) = m" unfolding w m_def ..
    define s2 where "s2 = requeue_successor E node p s1"
    have s'': "s' = unlink_self node s2"
      unfolding s'_def s2_def using p0 by simp
    note eff = requeue_successor_effect [of E node p s1, folded s2_def, unfolded w, folded m_def, unfolded t k mw mt]
    have r1: "requeued (waiters s' p) = 1"
      unfolding s'' unlink_self_frame eff(2) by simp
    have r2: "\<forall>x. x \<noteq> p \<longrightarrow> requeued (waiters s' x) = requeued (waiters s x)"
      unfolding s'' unlink_self_frame eff(2) by simp
    have r3: "m_waiters (mutexes s' m) = wrap32 (w1 + 1)"
      unfolding s'' unlink_self_frame by (rule eff(3))
    have r4: "trace s' = trace s
               @ SysFutex (W_state p) (FUTEX_REQUEUE OR 128) (m_type (mutexes s m) AND 128) 1
                   (M_lock m)
               # (if futex_result E (tick s) = - EINVAL
                  then [SysFutex (W_state p) FUTEX_REQUEUE 0 1 (M_lock m)] else [])"
      unfolding s'' unlink_self_frame by (rule eff(1))
    show "requeued (waiters s' p) = 1
          \<and> (\<forall>x. x \<noteq> p \<longrightarrow> requeued (waiters s' x) = requeued (waiters s x))
          \<and> m_waiters (mutexes s' m) = wrap32 (w1 + 1)
          \<and> trace s' = trace s
               @ SysFutex (W_state p) (FUTEX_REQUEUE OR 128) (m_type (mutexes s m) AND 128) 1
                   (M_lock m)
               # (if futex_result E (tick s) = - EINVAL
                  then [SysFutex (W_state p) FUTEX_REQUEUE 0 1 (M_lock m)] else [])"
      by (intro conjI r1 r2 r3 r4)
  qed
  have nz: "0 \<notin> set qs" using dl by (rule dll_nonzero)
  have links: "next (waiters (if p \<noteq> 0 then requeue_successor E node p s1 else s1) x)
                 = next (waiters s x)
               \<and> prev (waiters (if p \<noteq> 0 then requeue_successor E node p s1 else s1) x)
                 = prev (waiters s x)" for x
    by (simp add: requeue_successor_effect w)
  have "dll (waiters (if p \<noteq> 0 then requeue_successor E node p s1 else s1)) 0 qs
          = dll (waiters s) 0 qs"
    by (intro dll_frame links)
  with dl have "dll (waiters (if p \<noteq> 0 then requeue_successor E node p s1 else s1)) 0 qs"
    by simp
  then have list: "dll (waiters s') 0 (remove1 node qs)"
    unfolding s'_def using di mem by (rule unlink_self_dll)
  have rq: "requeued (waiters s' x)
              = (if x = successor_spec (waiters s) qs node then 1 else requeued (waiters s x))"
    if "x \<in> set qs" for x
  proof -
    from that nz have x0: "x \<noteq> 0" by (cases "x = 0") auto
    show ?thesis
      unfolding p_def [symmetric] s'_def unlink_self_frame using x0
      by (cases "p = 0") (simp_all add: requeue_successor_effect w)
  qed
  have keep: "requeued_oldest (waiters s') (remove1 node qs)"
    using inv di nz rq by (rule requeued_oldest_step)
  show ?thesis
    unfolding Let_def p_def [symmetric] m_def [symmetric] w1_def [symmetric]
    by (intro exI [of _ s'] conjI run none some list keep)
qed

theorem C5_witness:
  "\<exists>s'. unwait_requeue env0 1 st_chain = Some s'
     \<and> successor_spec (waiters st_chain) [1, 2, 3] 1 = 2
     \<and> requeued (waiters s' 2) = 1 \<and> requeued (waiters s' 3) = 0
     \<and> m_waiters (mutexes s' 9) = 1
     \<and> trace s' = [SysFutex (W_state 2) (FUTEX_REQUEUE OR 128) 0 1 (M_lock 9)]
     \<and> dll (waiters s') 0 [2, 3]"
proof -
  have a: "dll (waiters st_chain) 0 [1, 2, 3]" "distinct [1, 2, 3 :: addr]"
    "(1 :: addr) \<in> set [1, 2, 3]"
    by (simp_all add: st_chain_def fixture_defs)
  have ro: "requeued_oldest (waiters st_chain) [1, 2, 3]"
    by code_simp
  have b: "successor_spec (waiters st_chain) [1, 2, 3] 1 = 2"
    "mutex (waiters st_chain 1) = 9" "requeued (waiters st_chain 1) = 0"
    "requeued (waiters st_chain 3) = 0"
    "m_waiters (mutexes st_chain 9) = 0" "m_type (mutexes st_chain 9) = 0"
    "trace st_chain = []" "futex_result env0 (tick st_chain) = 0"
    by (simp_all add: st_chain_def fixture_defs successor_spec_def)
  from C5_requeue_successor [OF a ro, of env0] show ?thesis
    unfolding Let_def b using b(4) by (auto simp: wrap32_def EINVAL_def)
qed

text \<open>
  What the claim says of the process-shared mutex does not hold.  Node 1 departs from the
  chain 1, 2, 3 of a process-shared mutex (type bit 128).  With a kernel that accepts the
  call, the only futex operation is \<open>FUTEX_REQUEUE|128\<close> with wake count 128 and requeue
  count 1: no \<open>FUTEX_WAKE\<close>.  With a kernel that answers \<open>-EINVAL\<close>, the second call is a
  plain \<open>FUTEX_REQUEUE\<close> with wake count 0 and requeue count 1: the fallback requeues the
  successor of a process-shared mutex, it does not wake it.
\<close>

theorem C5_counterexample:
  "m_type (mutexes st_depart 9) AND 128 \<noteq> 0
   \<and> map_option trace (unwait_requeue env0 1 st_depart)
       = Some [SysFutex (W_state 2) (FUTEX_REQUEUE OR 128) 128 1 (M_lock 9)]
   \<and> map_option trace (unwait_requeue env_einval 1 st_depart)
       = Some [SysFutex (W_state 2) (FUTEX_REQUEUE OR 128) 128 1 (M_lock 9),
               SysFutex (W_state 2) FUTEX_REQUEUE 0 1 (M_lock 9)]
   \<and> map_option (\<lambda>s'. filter is_futex_wake (trace s')) (unwait_requeue env_einval 1 st_depart)
       = Some []"
proof (intro conjI)
  show "m_type (mutexes st_depart 9) AND 128 \<noteq> 0" by code_simp
  show "map_option trace (unwait_requeue env0 1 st_depart)
       = Some [SysFutex (W_state 2) (FUTEX_REQUEUE OR 128) 128 1 (M_lock 9)]"
    by code_simp
  show "map_option trace (unwait_requeue env_einval 1 st_depart)
       = Some [SysFutex (W_state 2) (FUTEX_REQUEUE OR 128) 128 1 (M_lock 9),
               SysFutex (W_state 2) FUTEX_REQUEUE 0 1 (M_lock 9)]"
    by code_simp
  show "map_option (\<lambda>s'. filter is_futex_wake (trace s')) (unwait_requeue env_einval 1 st_depart)
       = Some []"
    by code_simp
qed

end
